theory Spec2Isabelle
  imports Main "HOL-Library.Sublist" "HOL-Library.Word"
begin

section \<open>Data model of \<^verbatim>\<open>pipeline/runtime/step_executor.go\<close>\<close>

text \<open>
  The step executor keeps three registries behind one mutex and starts one goroutine per
  step. The embedding below follows the source function by function. Pointers that the
  handlers always pass non-nil (the request \<^verbatim>\<open>r\<close> and the log configuration) are
  records, not options. Values the code only passes through (outputs, artifact bytes,
  v2 outputs, telemetry) keep their nil case as \<open>None\<close>.
\<close>

type_synonym byte = "8 word"
type_synonym addr = nat
type_synonym chan = nat

text \<open>\<^verbatim>\<open>api.OutputV2\<close> and \<^verbatim>\<open>types.TelemetryData\<close> are structs of other modules; the
  executor never looks inside them, so a value stands for the object pointed to.\<close>

type_synonym OutputV2 = nat
type_synonym TelemetryData = nat

datatype ExecutionStatus = NotStarted | Running | Complete

datatype StepKind = Run | RunTests | RunTestsV2

subsection \<open>Errors\<close>

text \<open>
  A Go \<^verbatim>\<open>error\<close> is \<open>None\<close> for nil and \<open>Some e\<close> otherwise. The errors that occur are
  the two sentinels of package \<^verbatim>\<open>context\<close>, the repository's \<^verbatim>\<open>BadRequestError\<close>
  (its text is taken to be its message),
  errors that are only a text (\<^verbatim>\<open>fmt.Errorf\<close>, and whatever the engine or the log
  sink report), and the aggregate \<^verbatim>\<open>*multierror.Error\<close>. The aggregate is a pointer to
  a struct with one field, \<^verbatim>\<open>Errors []error\<close>, and \<^verbatim>\<open>multierror.Append\<close> updates that
  field in place when its first argument is already an aggregate. The stored step status
  and every response conversion share the pointer, so the struct lives in an explicit
  store: \<open>MultiError a\<close> is the pointer to cell \<open>a\<close>.

  \<^verbatim>\<open>Append\<close> flattens every aggregate it is given, so the cells built here hold plain
  errors only; the engine is taken to report plain errors or flat aggregates.
\<close>

datatype plain_error =
    Canceled
  | DeadlineExceeded
  | BadRequestError string
  | Errorf string

datatype error = Plain plain_error | MultiError addr

type_synonym errstore = "plain_error list list"

definition Errors :: "errstore \<Rightarrow> addr \<Rightarrow> plain_error list" where
  "Errors h a = (if a < length h then h ! a else [])"

text \<open>The errors one argument of \<^verbatim>\<open>Append\<close> contributes: nothing for nil, the elements
  of an aggregate, the error itself otherwise.\<close>

fun flatten :: "errstore \<Rightarrow> error option \<Rightarrow> plain_error list" where
  "flatten h None = []"
| "flatten h (Some (MultiError b)) = Errors h b"
| "flatten h (Some (Plain p)) = [p]"

text \<open>
  \<^verbatim>\<open>multierror.Append(err, e)\<close> with one error to add. First case of its type switch:
  \<^verbatim>\<open>err\<close> is an aggregate, whose \<^verbatim>\<open>Errors\<close> field is extended in place and whose own
  pointer is returned. Default case: a new aggregate is allocated, holding \<^verbatim>\<open>err\<close> (when
  not nil) and then what \<^verbatim>\<open>e\<close> contributes. The result is never nil.
\<close>

fun multierror_Append :: "error option \<Rightarrow> error option \<Rightarrow> errstore \<Rightarrow> error \<times> errstore" where
  "multierror_Append (Some (MultiError a)) e h =
     (MultiError a, if a < length h then h[a := h ! a @ flatten h e] else h)"
| "multierror_Append None e h = (MultiError (length h), h @ [flatten h e])"
| "multierror_Append (Some (Plain p)) e h = (MultiError (length h), h @ [p # flatten h e])"

subsection \<open>Error texts\<close>

definition digit :: "nat \<Rightarrow> char" where
  "digit n = ''0123456789'' ! n"

fun show_nat :: "nat \<Rightarrow> string" where
  "show_nat n = (if n < 10 then [digit n] else show_nat (n div 10) @ [digit (n mod 10)])"

declare show_nat.simps [simp del]

text \<open>The verb \<^verbatim>\<open>%d\<close> of package \<^verbatim>\<open>fmt\<close> on an \<^verbatim>\<open>int\<close>.\<close>

definition Sprintf_d :: "int \<Rightarrow> string" where
  "Sprintf_d i = (if i < 0 then ''-'' @ show_nat (nat (- i)) else show_nat (nat i))"

definition NL :: string where "NL = [CHR 0x0A]"
definition TAB :: string where "TAB = [CHR 0x09]"

fun join :: "string \<Rightarrow> string list \<Rightarrow> string" where
  "join sep [] = []"
| "join sep [s] = s"
| "join sep (s # t # ss) = s @ sep @ join sep (t # ss)"

fun plain_text :: "plain_error \<Rightarrow> string" where
  "plain_text Canceled = ''context canceled''"
| "plain_text DeadlineExceeded = ''context deadline exceeded''"
| "plain_text (BadRequestError msg) = msg"
| "plain_text (Errorf s) = s"

text \<open>\<^verbatim>\<open>multierror.ListFormatFunc\<close>, the format an aggregate uses when none is set.\<close>

definition ListFormatFunc :: "string list \<Rightarrow> string" where
  "ListFormatFunc es =
     (if length es = 1 then ''1 error occurred:'' @ NL @ TAB @ ''* '' @ hd es @ NL @ NL
      else show_nat (length es) @ '' errors occurred:'' @ NL @ TAB
           @ join (NL @ TAB) (map (\<lambda>s. ''* '' @ s) es) @ NL @ NL)"

text \<open>The method \<^verbatim>\<open>Error()\<close>.\<close>

fun Error_text :: "errstore \<Rightarrow> error \<Rightarrow> string" where
  "Error_text h (Plain p) = plain_text p"
| "Error_text h (MultiError a) = ListFormatFunc (map plain_text (Errors h a))"

subsection \<open>Records\<close>

text \<open>\<^verbatim>\<open>runtime.State\<close> of the drone runner library.\<close>

record runtime_State =
  ExitCode :: int
  Exited :: bool
  OOMKilled :: bool

record StepStatus =
  Status :: ExecutionStatus
  State :: "runtime_State option"
  StepErr :: "error option"
  Outputs :: "(string \<rightharpoonup> string) option"
  Artifact :: "byte list option"
  OutputV2 :: "OutputV2 list option"
  OptimizationState :: string
  Telemetry :: "TelemetryData option"

text \<open>The fields of \<^verbatim>\<open>api.StartStepRequest\<close> the executor reads.\<close>

record StartStepRequest =
  ID :: string
  Name :: string
  Kind :: StepKind
  Timeout :: int
  Detach :: bool
  LogKey :: string
  LogDrone :: bool

record PollStepRequest =
  poll_ID :: string

record StreamOutputRequest =
  stream_ID :: string
  Offset :: int

record PollStepResponse =
  r_Exited :: bool
  r_ExitCode :: int
  r_Error :: string
  r_OOMKilled :: bool
  r_Outputs :: "(string \<rightharpoonup> string) option"
  r_Artifact :: "byte list option"
  r_OutputV2 :: "OutputV2 list option"
  r_OptimizationState :: string
  r_Telemetry :: "TelemetryData option"

text \<open>The zero value \<^verbatim>\<open>&api.PollStepResponse{}\<close>.\<close>

definition empty_response :: PollStepResponse where
  "empty_response =
     \<lparr>r_Exited = False, r_ExitCode = 0, r_Error = [], r_OOMKilled = False, r_Outputs = None,
      r_Artifact = None, r_OutputV2 = None, r_OptimizationState = [], r_Telemetry = None\<rparr>"

section \<open>Response conversion\<close>

text \<open>
  \<^verbatim>\<open>convertStatus\<close>, lines 319 to 350. The local \<^verbatim>\<open>stepErr\<close> starts as the stored step
  error, so when that is an aggregate the call of \<^verbatim>\<open>multierror.Append\<close> extends the
  stored aggregate itself; the store is returned updated.
\<close>

definition oom_or_exit :: "runtime_State \<Rightarrow> error option" where
  "oom_or_exit st =
     (if OOMKilled st then Some (Plain (Errorf ''oom killed''))
      else if ExitCode st \<noteq> 0 then Some (Plain (Errorf (''exit status '' @ Sprintf_d (ExitCode st))))
      else None)"

definition convertStatus :: "StepStatus \<Rightarrow> errstore \<Rightarrow> PollStepResponse \<times> errstore" where
  "convertStatus status h =
     (let r = \<lparr>r_Exited = True, r_ExitCode = 0, r_Error = [], r_OOMKilled = False,
               r_Outputs = Outputs status, r_Artifact = Artifact status,
               r_OutputV2 = OutputV2 status, r_OptimizationState = OptimizationState status,
               r_Telemetry = Telemetry status\<rparr>;
          stepErr = StepErr status;
          (r, stepErr, h) =
            (case State status of
               None \<Rightarrow> (r, stepErr, h)
             | Some st \<Rightarrow>
                 (let r = r\<lparr>r_Exited := Exited st, r_OOMKilled := OOMKilled st,
                            r_ExitCode := ExitCode st\<rparr>
                  in case oom_or_exit st of
                       None \<Rightarrow> (r, stepErr, h)
                     | Some e \<Rightarrow>
                         (let (agg, h) = multierror_Append stepErr (Some e) h
                          in (r, Some agg, h))));
          r = (if StepErr status \<noteq> None then r\<lparr>r_ExitCode := 255\<rparr> else r);
          r = (case stepErr of None \<Rightarrow> r | Some err \<Rightarrow> r\<lparr>r_Error := Error_text h err\<rparr>)
      in (r, h))"

section \<open>Running a step\<close>

text \<open>
  What one execution meets outside the executor: the result each of the three run
  strategies would return (the seven values of \<^verbatim>\<open>run\<close>), the state of the run's
  context when \<^verbatim>\<open>ctx.Err()\<close> is read after the run, and what the log writer reports.
\<close>

datatype ctx_state = Active | CtxCanceled | CtxDeadlineExceeded

fun ctx_Err :: "ctx_state \<Rightarrow> error option" where
  "ctx_Err Active = None"
| "ctx_Err CtxCanceled = Some (Plain Canceled)"
| "ctx_Err CtxDeadlineExceeded = Some (Plain DeadlineExceeded)"

record StepResult =
  exited :: "runtime_State option"
  outputs :: "(string \<rightharpoonup> string) option"
  artifact :: "byte list option"
  outputV2 :: "OutputV2 list option"
  optimizationState :: string
  telemetry :: "TelemetryData option"
  err :: "error option"

record RunEnv =
  executeRunStep :: StepResult
  executeRunTestsV2Step :: StepResult
  executeRunTestStep :: StepResult
  ctx_after_run :: ctx_state
  wr_Open :: "error option"
  wc_Close :: "error option"
  wc_Error :: "error option"

text \<open>\<^verbatim>\<open>run\<close>, lines 308 to 317: routing by step kind.\<close>

definition run :: "StartStepRequest \<Rightarrow> RunEnv \<Rightarrow> StepResult" where
  "run r env =
     (if Kind r = Run then executeRunStep env
      else if Kind r = RunTestsV2 then executeRunTestsV2Step env
      else executeRunTestStep env)"

text \<open>
  The context of a run is \<^verbatim>\<open>context.WithTimeout\<close> when the request has a positive
  timeout. Otherwise it is \<^verbatim>\<open>context.Background()\<close> (primary path) or a cancelable
  context whose \<^verbatim>\<open>cancel\<close> is only deferred (legacy path): its \<^verbatim>\<open>Err()\<close> is nil when
  read.
\<close>

definition run_ctx :: "StartStepRequest \<Rightarrow> RunEnv \<Rightarrow> ctx_state" where
  "run_ctx r env = (if Timeout r > 0 then ctx_after_run env else Active)"

definition timed_out :: "error option \<Rightarrow> bool" where
  "timed_out e = (e = Some (Plain Canceled) \<or> e = Some (Plain DeadlineExceeded))"

definition not_exited :: runtime_State where
  "not_exited = \<lparr>ExitCode = 0, Exited = False, OOMKilled = False\<rparr>"

text \<open>
  \<^verbatim>\<open>executeStepDrone\<close>, lines 200 to 233: what the call returns. Its registration of the
  log buffer (lines 190 to 198) happens when the run begins and is the separate function
  \<open>executeStep_register\<close> below.
\<close>

definition executeStepDrone :: "StartStepRequest \<Rightarrow> RunEnv \<Rightarrow> runtime_State option \<times> error option" where
  "executeStepDrone r env =
     (if Detach r then (Some not_exited, None)
      else
        (let ctx = run_ctx r env;
             res = run (r\<lparr>Kind := Run\<rparr>) env
         in if timed_out (ctx_Err ctx) then (None, ctx_Err ctx)
            else if err res \<noteq> None then (None, err res)
            else (exited res, None)))"

text \<open>\<^verbatim>\<open>executeStep\<close>, lines 236 to 306. A failure of \<^verbatim>\<open>wr.Open()\<close> is only logged.\<close>

definition executeStep :: "StartStepRequest \<Rightarrow> RunEnv \<Rightarrow> errstore \<Rightarrow> StepResult \<times> errstore" where
  "executeStep r env h =
     (if LogDrone r then
        (let (state, e) = executeStepDrone r env
         in (\<lparr>exited = state, outputs = None, artifact = None, outputV2 = None,
              optimizationState = [], telemetry = None, err = e\<rparr>, h))
      else if Detach r then
        (\<lparr>exited = Some not_exited, outputs = None, artifact = None, outputV2 = None,
          optimizationState = [], telemetry = None, err = None\<rparr>, h)
      else
        (let ctx = run_ctx r env;
             res = run r env;
             (result, h) =
               (if err res \<noteq> None
                then (let (agg, h) = multierror_Append None (err res) h in (Some agg, h))
                else (None, h));
             e = wc_Close env;
             (result, h) =
               (if e \<noteq> None
                then (let (agg, h) = multierror_Append result e h in (Some agg, h))
                else (result, h))
         in if timed_out (ctx_Err ctx) then
              (\<lparr>exited = None, outputs = None, artifact = None, outputV2 = None,
                optimizationState = [], telemetry = telemetry res, err = ctx_Err ctx\<rparr>, h)
            else
              (let (result, h) =
                     (case exited res of
                        None \<Rightarrow> (result, h)
                      | Some st \<Rightarrow>
                          if ExitCode st \<noteq> 0 \<and> wc_Error env \<noteq> None
                          then (let (agg, h) = multierror_Append result e h in (Some agg, h))
                          else (result, h))
               in (res\<lparr>err := result\<rparr>, h))))"

section \<open>The executor and the memory around it\<close>

text \<open>
  Modelled from the spec: the Log Buffer (\<^verbatim>\<open>StepLog\<close>, whose file is not among the
  sources). It holds the accumulated output, the subscriber channels and whether its
  cancellation scope has ended. Subscribing returns the buffered bytes from the offset and
  adds the channel; unsubscribing removes it and may be repeated.
\<close>

record StepLog =
  log_data :: "byte list"
  log_subs :: "chan list"
  log_done :: bool

definition NewStepLog :: StepLog where
  "NewStepLog = \<lparr>log_data = [], log_subs = [], log_done = False\<rparr>"

definition Subscribe :: "chan \<Rightarrow> int \<Rightarrow> StepLog \<Rightarrow> byte list \<times> error option \<times> StepLog" where
  "Subscribe ch off sl = (drop (nat off) (log_data sl), None, sl\<lparr>log_subs := log_subs sl @ [ch]\<rparr>)"

definition Unsubscribe :: "chan \<Rightarrow> StepLog \<Rightarrow> StepLog" where
  "Unsubscribe ch sl = sl\<lparr>log_subs := removeAll ch (log_subs sl)\<rparr>"

text \<open>
  The goroutine that \<^verbatim>\<open>StartStep\<close> launches (lines 79 to 90) is in one of three
  places: launched and not yet inside \<^verbatim>\<open>executeStep\<close>; inside it; or past the locked
  update of lines 82 to 85, sending the status to the channels it read there, the list
  being those still to be served.
\<close>

datatype goroutine =
    Spawned StartStepRequest
  | Executing StartStepRequest
  | Delivering StartStepRequest StepStatus "chan list"

fun request :: "goroutine \<Rightarrow> StartStepRequest" where
  "request (Spawned r) = r"
| "request (Executing r) = r"
| "request (Delivering r s chs) = r"

fun begun :: "goroutine \<Rightarrow> bool" where
  "begun (Spawned r) = False"
| "begun (Executing r) = True"
| "begun (Delivering r s chs) = True"

text \<open>The goroutine of \<^verbatim>\<open>StreamOutput\<close> (lines 165 to 174), for one identifier and one
  live channel, until it has closed the channel.\<close>

datatype watcher = Watching string chan | Stopped

text \<open>
  \<^verbatim>\<open>StepExecutor\<close> holds the three registries (the engine handle is left out: what
  the engine does is in \<open>RunEnv\<close>). The machine adds the memory the executor's pointers
  lead to: the status channels (each made with capacity one; a channel is its index, the
  entry is its buffer), the live-output channels (the entry says whether the channel has
  been closed), the store of error aggregates, and the goroutines.
\<close>

record StepExecutor =
  stepStatus :: "string \<rightharpoonup> StepStatus"
  stepLog :: "string \<rightharpoonup> StepLog"
  stepWaitCh :: "string \<rightharpoonup> chan list"

record machine = StepExecutor +
  chans :: "StepStatus list list"
  dataChans :: "bool list"
  errs :: errstore
  goroutines :: "goroutine list"
  watchers :: "watcher list"

definition NewStepExecutor :: StepExecutor where
  "NewStepExecutor = \<lparr>stepStatus = Map.empty, stepLog = Map.empty, stepWaitCh = Map.empty\<rparr>"

definition boot :: machine where
  "boot = \<lparr>stepStatus = stepStatus NewStepExecutor, stepLog = stepLog NewStepExecutor,
           stepWaitCh = stepWaitCh NewStepExecutor,
           chans = [], dataChans = [], errs = [], goroutines = [], watchers = []\<rparr>"

section \<open>The operations\<close>

text \<open>
  Each operation runs its locked section as one step on the machine. The caller's context
  is a parameter of all three, as in the source, whether the body reads it or not.
\<close>

definition running_status :: StepStatus where
  "running_status =
     \<lparr>Status = Running, State = None, StepErr = None, Outputs = None, Artifact = None,
      OutputV2 = None, OptimizationState = [], Telemetry = None\<rparr>"

text \<open>\<^verbatim>\<open>StartStep\<close>, lines 64 to 92, up to and including the launch of the goroutine.\<close>

definition StartStep :: "ctx_state \<Rightarrow> StartStepRequest \<Rightarrow> machine \<Rightarrow> error option \<times> machine" where
  "StartStep ctx r m =
     (if ID r = [] then (Some (Plain (BadRequestError ''ID needs to be set'')), m)
      else if stepStatus m (ID r) \<noteq> None then (None, m)
      else (None, m\<lparr>stepStatus := (stepStatus m)(ID r \<mapsto> running_status),
                     goroutines := goroutines m @ [Spawned r]\<rparr>))"

text \<open>Lines 190 to 198 of \<^verbatim>\<open>executeStepDrone\<close>: the legacy path creates the log
  buffer and stores it under the identifier. The primary path has no such statement.\<close>

definition executeStep_register :: "StartStepRequest \<Rightarrow> machine \<Rightarrow> machine" where
  "executeStep_register r m =
     (if LogDrone r then m\<lparr>stepLog := (stepLog m)(ID r \<mapsto> NewStepLog)\<rparr> else m)"

text \<open>The context of a legacy run is the scope of its log buffer (line 190). When the
  context ends, the buffer of the identifier is done.\<close>

definition cancel_scope :: "string \<Rightarrow> machine \<Rightarrow> machine" where
  "cancel_scope i m =
     (case stepLog m i of
        None \<Rightarrow> m
      | Some sl \<Rightarrow> m\<lparr>stepLog := (stepLog m)(i \<mapsto> sl\<lparr>log_done := True\<rparr>)\<rparr>)"

text \<open>The deferred \<^verbatim>\<open>cancel()\<close> of \<^verbatim>\<open>runStep\<close> (line 201) ends the context when
  \<^verbatim>\<open>runStep\<close> returns. For a legacy run that is not detached that is when
  \<^verbatim>\<open>executeStepDrone\<close> returns.\<close>

definition executeStep_release :: "StartStepRequest \<Rightarrow> machine \<Rightarrow> machine" where
  "executeStep_release r m = (if LogDrone r \<and> \<not> Detach r then cancel_scope (ID r) m else m)"

text \<open>
  The context of a legacy run can also end on its own, at any moment after the run has
  begun: a detached \<^verbatim>\<open>runStep\<close> (launched by \<^verbatim>\<open>go runStep()\<close>, line 229) returns in
  the background and runs the same deferred \<^verbatim>\<open>cancel()\<close>, and the deadline of a context
  made by \<^verbatim>\<open>context.WithTimeout\<close> (line 185) passes. The detached run of the primary
  path (lines 252 to 261) touches nothing of the executor.
\<close>

definition scope_end :: "nat \<Rightarrow> machine \<Rightarrow> machine" where
  "scope_end n m =
     (if n < length (goroutines m) then
        (let g = goroutines m ! n; r = request g
         in if begun g \<and> LogDrone r \<and> (Detach r \<or> Timeout r > 0)
            then cancel_scope (ID r) m else m)
      else m)"

definition goroutine_begin :: "nat \<Rightarrow> machine \<Rightarrow> machine" where
  "goroutine_begin n m =
     (if n < length (goroutines m) then
        (case goroutines m ! n of
           Spawned r \<Rightarrow> (executeStep_register r m)\<lparr>goroutines := (goroutines m)[n := Executing r]\<rparr>
         | _ \<Rightarrow> m)
      else m)"

text \<open>Lines 80 to 85: \<^verbatim>\<open>executeStep\<close> returns, the status is built and stored under
  the lock, and the waiter list of the identifier is read.\<close>

definition complete_status :: "StepResult \<Rightarrow> StepStatus" where
  "complete_status res =
     \<lparr>Status = Complete, State = exited res, StepErr = err res, Outputs = outputs res,
      Artifact = artifact res, OutputV2 = outputV2 res,
      OptimizationState = optimizationState res, Telemetry = telemetry res\<rparr>"

definition waiters :: "machine \<Rightarrow> string \<Rightarrow> chan list" where
  "waiters m i = (case stepWaitCh m i of None \<Rightarrow> [] | Some chs \<Rightarrow> chs)"

definition goroutine_finish :: "nat \<Rightarrow> RunEnv \<Rightarrow> machine \<Rightarrow> machine" where
  "goroutine_finish n env m =
     (if n < length (goroutines m) then
        (case goroutines m ! n of
           Executing r \<Rightarrow>
             (let (res, h) = executeStep r env (errs m);
                  status = complete_status res;
                  channels = waiters m (ID r)
              in (executeStep_release r m)
                   \<lparr>stepStatus := (stepStatus m)(ID r \<mapsto> status), errs := h,
                    goroutines := (goroutines m)[n := Delivering r status channels]\<rparr>)
         | _ \<Rightarrow> m)
      else m)"

text \<open>Lines 87 to 89, one iteration: \<^verbatim>\<open>ch <- status\<close>. A send on a channel whose
  buffer of one is full does not proceed.\<close>

definition goroutine_send :: "nat \<Rightarrow> machine \<Rightarrow> machine" where
  "goroutine_send n m =
     (if n < length (goroutines m) then
        (case goroutines m ! n of
           Delivering r status (ch # rest) \<Rightarrow>
             (if ch < length (chans m) \<and> length (chans m ! ch) < 1
              then m\<lparr>chans := (chans m)[ch := chans m ! ch @ [status]],
                     goroutines := (goroutines m)[n := Delivering r status rest]\<rparr>
              else m)
         | _ \<Rightarrow> m)
      else m)"

text \<open>
  \<^verbatim>\<open>PollStep\<close>, lines 94 to 118: the call either returns at once or is left waiting on
  the channel it made. \<^verbatim>\<open>make(chan StepStatus, 1)\<close> takes the next free index.
\<close>

datatype poll_outcome = Returned PollStepResponse "error option" | Waiting chan

definition PollStep :: "ctx_state \<Rightarrow> PollStepRequest \<Rightarrow> machine \<Rightarrow> poll_outcome \<times> machine" where
  "PollStep ctx r m =
     (let i = poll_ID r in
      if poll_ID r = [] then
        (Returned empty_response (Some (Plain (BadRequestError ''ID needs to be set''))), m)
      else
        (case stepStatus m i of
           None \<Rightarrow>
             (Returned empty_response (Some (Plain (BadRequestError ''Step has not started''))), m)
         | Some s \<Rightarrow>
             if Status s = Complete then
               (let (resp, h) = convertStatus s (errs m) in (Returned resp None, m\<lparr>errs := h\<rparr>))
             else
               (let ch = length (chans m);
                    m = m\<lparr>chans := chans m @ [[]]\<rparr>;
                    m = (if stepWaitCh m i = None
                         then m\<lparr>stepWaitCh := (stepWaitCh m)(i \<mapsto> waiters m i @ [ch])\<rparr>
                         else m\<lparr>stepWaitCh := (stepWaitCh m)(i \<mapsto> [ch])\<rparr>)
                in (Waiting ch, m))))"

text \<open>Lines 120 and 121: \<^verbatim>\<open>status := <-ch\<close> and the conversion. \<open>None\<close> while the
  channel is empty: the caller stays blocked.\<close>

definition PollStep_receive ::
  "ctx_state \<Rightarrow> chan \<Rightarrow> machine \<Rightarrow> (PollStepResponse \<times> error option \<times> machine) option" where
  "PollStep_receive ctx ch m =
     (if ch < length (chans m) then
        (case chans m ! ch of
           [] \<Rightarrow> None
         | status # rest \<Rightarrow>
             (let (resp, h) = convertStatus status (errs m)
              in Some (resp, None, m\<lparr>chans := (chans m)[ch := rest], errs := h\<rparr>)))
      else None)"

text \<open>
  \<^verbatim>\<open>StreamOutput\<close>, lines 124 to 179, one pass of its waiting loop: \<open>elapsed\<close> is what
  \<^verbatim>\<open>time.Since(ts)\<close> returns in this pass (nanoseconds) and \<open>ctx\<close> the caller's context
  while the pass waits for the retry timer. When the log buffer is there, the pass goes on
  to subscribe a new unbuffered channel and to launch the watcher.
\<close>

definition timeoutDelay :: int where
  "timeoutDelay = 5 * 1000000000"

definition retryDelay :: int where
  "retryDelay = 100 * 1000000"

datatype stream_outcome =
    StreamReturned "byte list option" "chan option" "error option"
  | StreamRetry

definition StreamOutput ::
  "ctx_state \<Rightarrow> StreamOutputRequest \<Rightarrow> int \<Rightarrow> machine \<Rightarrow> stream_outcome \<times> machine" where
  "StreamOutput ctx r elapsed m =
     (let i = stream_ID r in
      if i = [] then
        (StreamReturned None None (Some (Plain (BadRequestError ''ID needs to be set''))), m)
      else
        (case stepLog m i of
           None \<Rightarrow>
             if elapsed \<ge> timeoutDelay then
               (StreamReturned None None (Some (Plain (BadRequestError ''Step has not started''))), m)
             else
               (case ctx_Err ctx of
                  None \<Rightarrow> (StreamRetry, m)
                | Some e \<Rightarrow> (StreamReturned None None (Some e), m))
         | Some sl \<Rightarrow>
             (let chData = length (dataChans m);
                  m = m\<lparr>dataChans := dataChans m @ [False]\<rparr>;
                  (oldOut, e, sl) = Subscribe chData (Offset r) sl;
                  m = m\<lparr>stepLog := (stepLog m)(i \<mapsto> sl)\<rparr>
              in if e \<noteq> None then (StreamReturned (Some oldOut) None e, m)
                 else (StreamReturned (Some oldOut) (Some chData) None,
                       m\<lparr>watchers := watchers m @ [Watching i chData]\<rparr>))))"

text \<open>The watcher, lines 165 to 174: it waits for the caller's context or for the log
  buffer to be done, then closes the channel and unsubscribes it. \<open>None\<close> while neither
  has happened.\<close>

definition StreamOutput_watcher :: "ctx_state \<Rightarrow> nat \<Rightarrow> machine \<Rightarrow> machine option" where
  "StreamOutput_watcher ctx n m =
     (if n < length (watchers m) then
        (case watchers m ! n of
           Stopped \<Rightarrow> None
         | Watching i chData \<Rightarrow>
             (case stepLog m i of
                None \<Rightarrow> None
              | Some sl \<Rightarrow>
                  if ctx \<noteq> Active \<or> log_done sl then
                    Some (m\<lparr>dataChans := (dataChans m)[chData := True],
                            stepLog := (stepLog m)(i \<mapsto> Unsubscribe chData sl),
                            watchers := (watchers m)[n := Stopped]\<rparr>)
                  else None))
      else None)"

section \<open>Interleavings\<close>

text \<open>
  The callers and the goroutines take turns; every event is one of the steps above. A
  step that cannot proceed (a send on a full channel, a receive on an empty one, a watcher
  with nothing to react to) leaves the machine as it is. \<open>ScopeEnd\<close> is the end of the
  context of a legacy run described above.
\<close>

datatype event =
    Start ctx_state StartStepRequest
  | Poll ctx_state PollStepRequest
  | Receive ctx_state chan
  | Begin nat
  | Finish nat RunEnv
  | Send nat
  | Stream ctx_state StreamOutputRequest int
  | Watch ctx_state nat
  | ScopeEnd nat

fun step :: "event \<Rightarrow> machine \<Rightarrow> machine" where
  "step (Start ctx r) m = snd (StartStep ctx r m)"
| "step (Poll ctx r) m = snd (PollStep ctx r m)"
| "step (Receive ctx ch) m =
     (case PollStep_receive ctx ch m of None \<Rightarrow> m | Some (resp, e, m') \<Rightarrow> m')"
| "step (Begin n) m = goroutine_begin n m"
| "step (Finish n env) m = goroutine_finish n env m"
| "step (Send n) m = goroutine_send n m"
| "step (Stream ctx r elapsed) m = snd (StreamOutput ctx r elapsed m)"
| "step (Watch ctx n) m = (case StreamOutput_watcher ctx n m of None \<Rightarrow> m | Some m' \<Rightarrow> m')"
| "step (ScopeEnd n) m = scope_end n m"

fun steps :: "event list \<Rightarrow> machine \<Rightarrow> machine" where
  "steps [] m = m"
| "steps (ev # evs) m = steps evs (step ev m)"

section \<open>Well-formed pointers and sample inputs\<close>

text \<open>An error value is well formed in a store when, being an aggregate, its cell has
  been allocated there.\<close>

definition wf_err :: "errstore \<Rightarrow> error option \<Rightarrow> bool" where
  "wf_err h e = (case e of Some (MultiError a) \<Rightarrow> a < length h | _ \<Rightarrow> True)"

text \<open>The condition of lines 292 to 297 under which the close error is appended a second
  time.\<close>

definition extra_close :: "StartStepRequest \<Rightarrow> RunEnv \<Rightarrow> bool" where
  "extra_close r env =
     (case exited (run r env) of
        None \<Rightarrow> False
      | Some st \<Rightarrow> ExitCode st \<noteq> 0 \<and> wc_Error env \<noteq> None)"

definition primary_request :: "string \<Rightarrow> int \<Rightarrow> StartStepRequest" where
  "primary_request i t =
     \<lparr>ID = i, Name = ''build'', Kind = Run, Timeout = t, Detach = False, LogKey = ''key'',
      LogDrone = False\<rparr>"

definition exit_result :: "int \<Rightarrow> error option \<Rightarrow> StepResult" where
  "exit_result code e =
     \<lparr>exited = Some \<lparr>ExitCode = code, Exited = True, OOMKilled = False\<rparr>,
      outputs = Some Map.empty, artifact = None, outputV2 = None, optimizationState = [],
      telemetry = Some 7, err = e\<rparr>"

definition engine_env :: "StepResult \<Rightarrow> ctx_state \<Rightarrow> error option \<Rightarrow> RunEnv" where
  "engine_env res c cl =
     \<lparr>executeRunStep = res, executeRunTestsV2Step = res, executeRunTestStep = res,
      ctx_after_run = c, wr_Open = None, wc_Close = cl, wc_Error = cl\<rparr>"


definition poll_request :: "string \<Rightarrow> PollStepRequest" where
  "poll_request i = \<lparr>poll_ID = i\<rparr>"

definition clean_env :: RunEnv where
  "clean_env = engine_env (exit_result 0 None) Active None"

definition clean_status :: StepStatus where
  "clean_status = complete_status (exit_result 0 None)"

definition one_waiter_trace :: "event list" where
  "one_waiter_trace =
     [Start Active (primary_request ''s1'' 0), Poll Active (poll_request ''s1''), Begin 0]"

definition two_polls_trace :: "event list" where
  "two_polls_trace =
     [Start Active (primary_request ''s1'' 0), Poll Active (poll_request ''s1''),
      Poll Active (poll_request ''s1'')]"

definition close_failure_env :: RunEnv where
  "close_failure_env =
     \<lparr>executeRunStep = exit_result 1 None, executeRunTestsV2Step = exit_result 1 None,
      executeRunTestStep = exit_result 1 None, ctx_after_run = Active, wr_Open = None,
      wc_Close = Some (Plain (Errorf ''upload failed'')), wc_Error = None\<rparr>"

definition completed_trace :: "event list" where
  "completed_trace = [Start Active (primary_request ''s1'' 0), Begin 0, Finish 0 close_failure_env]"

definition drone_request :: "string \<Rightarrow> StartStepRequest" where
  "drone_request i =
     \<lparr>ID = i, Name = ''build'', Kind = Run, Timeout = 0, Detach = False, LogKey = ''key'',
      LogDrone = True\<rparr>"

definition stream_request :: "string \<Rightarrow> int \<Rightarrow> StreamOutputRequest" where
  "stream_request i off = \<lparr>stream_ID = i, Offset = off\<rparr>"

definition not_started :: "error option" where
  "not_started = Some (Plain (BadRequestError ''Step has not started''))"

definition legacy_start_trace :: "event list" where
  "legacy_start_trace = [Start Active (drone_request ''d1'')]"

definition mixed_trace :: "event list" where
  "mixed_trace =
     [Start Active (drone_request ''d1''), Begin 0, Start Active (primary_request ''s1'' 0),
      Begin 1]"

definition detached_request :: "string \<Rightarrow> StartStepRequest" where
  "detached_request i =
     \<lparr>ID = i, Name = ''daemon'', Kind = Run, Timeout = 0, Detach = True, LogKey = ''key'',
      LogDrone = True\<rparr>"

definition detached_trace :: "event list" where
  "detached_trace =
     [Start Active (detached_request ''d2''), Begin 0,
      Stream Active (stream_request ''d2'' 0) 0, Finish 0 clean_env]"

definition watched_trace :: "event list" where
  "watched_trace =
     [Start Active (drone_request ''d1''), Begin 0, Stream Active (stream_request ''d1'' 0) 0]"

section \<open>Invariants of the registries\<close>

text \<open>
  What holds of every machine reached from the initial one. Each goroutine agrees with the
  status of its identifier: while it is launched or executing the status is Running; once
  it delivers, the entry is the Complete status it stored, and the channels it still has
  to serve are distinct, empty and among the waiters of the identifier. Waiter lists have
  distinct, allocated channels, empty while the step runs; two identifiers share no
  channel; an identifier without status has no waiter list. No two goroutines have the
  same identifier.
\<close>

definition status_of :: "machine \<Rightarrow> string \<Rightarrow> ExecutionStatus" where
  "status_of m i = (case stepStatus m i of None \<Rightarrow> NotStarted | Some s \<Rightarrow> Status s)"

definition goroutine_ok :: "machine \<Rightarrow> goroutine \<Rightarrow> bool" where
  "goroutine_ok m g =
     (case g of
        Spawned r \<Rightarrow> status_of m (ID r) = Running
      | Executing r \<Rightarrow> status_of m (ID r) = Running
      | Delivering r s chs \<Rightarrow>
          stepStatus m (ID r) = Some s \<and> Status s = Complete \<and> distinct chs
          \<and> set chs \<subseteq> set (waiters m (ID r)) \<and> (\<forall>ch \<in> set chs. chans m ! ch = []))"

definition waiters_ok :: "machine \<Rightarrow> bool" where
  "waiters_ok m =
     ((\<forall>i. distinct (waiters m i)
          \<and> (\<forall>ch \<in> set (waiters m i). ch < length (chans m)
                \<and> (status_of m i = Running \<longrightarrow> chans m ! ch = [])))
      \<and> (\<forall>i j. i \<noteq> j \<longrightarrow> set (waiters m i) \<inter> set (waiters m j) = {})
      \<and> (\<forall>i. stepStatus m i = None \<longrightarrow> stepWaitCh m i = None))"

definition inv :: "machine \<Rightarrow> bool" where
  "inv m =
     (distinct (map (\<lambda>g. ID (request g)) (goroutines m))
      \<and> (\<forall>g \<in> set (goroutines m). goroutine_ok m g)
      \<and> waiters_ok m)"

text \<open>A channel that nobody will ever send on: it is empty, in no waiter list and in no
  list a goroutine still has to serve.\<close>

definition starved :: "chan \<Rightarrow> machine \<Rightarrow> bool" where
  "starved ch m =
     (ch < length (chans m) \<and> chans m ! ch = [] \<and> (\<forall>i. ch \<notin> set (waiters m i))
      \<and> (\<forall>g \<in> set (goroutines m).
            case g of Delivering r s chs \<Rightarrow> ch \<notin> set chs | _ \<Rightarrow> True))"

text \<open>The requests of the goroutines, in the order of their launch. Every log buffer
  belongs to a legacy request of its identifier, and no request has an empty
  identifier.\<close>

definition requests :: "machine \<Rightarrow> StartStepRequest list" where
  "requests m = map request (goroutines m)"

definition log_owned :: "machine \<Rightarrow> bool" where
  "log_owned m =
     ((\<forall>i. stepLog m i \<noteq> None \<longrightarrow> (\<exists>r \<in> set (requests m). ID r = i \<and> LogDrone r))
      \<and> (\<forall>r \<in> set (requests m). ID r \<noteq> []))"

text \<open>The error text of a response, when the call has returned one.\<close>

definition poll_error_text :: "poll_outcome \<Rightarrow> string option" where
  "poll_error_text out = (case out of Returned resp e \<Rightarrow> Some (r_Error resp) | Waiting ch \<Rightarrow> None)"

section \<open>Properties of the run and of the response conversion\<close>

lemma flatten_append_store: "wf_err h e \<Longrightarrow> flatten (h @ xs) e = flatten h e"
  by (cases "(h, e)" rule: flatten.cases) (auto simp: wf_err_def Errors_def nth_append)

lemma flatten_update_new: "wf_err h e \<Longrightarrow> flatten ((h @ xs)[length h := ys]) e = flatten h e"
  by (cases "(h, e)" rule: flatten.cases) (auto simp: wf_err_def Errors_def nth_append)

text \<open>
  Claim C3. On the primary path, for a run that is not detached and whose context ends
  canceled or past its deadline, the error the step reports is exactly the error of the
  context, whatever the run returned, whatever the close of the writer returned and
  whatever the process state is.
\<close>

theorem timeout_takes_precedence:
  assumes "\<not> LogDrone r" and "\<not> Detach r" and "timed_out (ctx_Err (run_ctx r env))"
  shows "err (fst (executeStep r env h)) = ctx_Err (run_ctx r env)
       \<and> StepErr (complete_status (fst (executeStep r env h))) = ctx_Err (run_ctx r env)"
  using assms by (simp add: executeStep_def complete_status_def Let_def split: prod.splits)

theorem timeout_takes_precedence_witness:
  "StepErr (complete_status (fst (executeStep (primary_request ''s2'' 1)
      (engine_env (exit_result 1 (Some (Plain (Errorf ''exit'')))) CtxDeadlineExceeded
         (Some (Plain (Errorf ''upload failed'')))) []))) = Some (Plain DeadlineExceeded)"
  using timeout_takes_precedence [of "primary_request ''s2'' 1"
      "engine_env (exit_result 1 (Some (Plain (Errorf ''exit'')))) CtxDeadlineExceeded
         (Some (Plain (Errorf ''upload failed'')))" "[]"]
  by (simp add: primary_request_def engine_env_def run_ctx_def timed_out_def)

text \<open>
  Claim C4. On the primary path, for a run that is not detached and has not timed out,
  when the run fails and the close of the writer fails the step reports one aggregate,
  newly allocated, whose errors are those of the run error, then those of the close error
  (then the close error once more when the exit code is not zero and the writer holds an
  error): both are in it and neither replaces the other.
\<close>

theorem run_and_close_errors_aggregate:
  assumes "\<not> LogDrone r" and "\<not> Detach r" and "\<not> timed_out (ctx_Err (run_ctx r env))"
    and "err (run r env) = Some a" and "wc_Close env = Some b"
    and "wf_err h (Some a)" and "wf_err h (Some b)"
  shows "err (fst (executeStep r env h)) = Some (MultiError (length h))
       \<and> Errors (snd (executeStep r env h)) (length h) =
           flatten h (Some a) @ flatten h (Some b)
           @ (if extra_close r env then flatten h (Some b) else [])"
  using assms
  by (auto simp: executeStep_def Let_def extra_close_def Errors_def flatten_append_store
      flatten_update_new split: prod.splits option.splits)

theorem run_and_close_errors_aggregate_witness:
  "Errors (snd (executeStep (primary_request ''s4'' 0)
      (engine_env (exit_result 1 (Some (Plain (Errorf ''run failed'')))) Active
         (Some (Plain (Errorf ''upload failed'')))) [])) 0
   = [Errorf ''run failed'', Errorf ''upload failed'', Errorf ''upload failed'']"
  using run_and_close_errors_aggregate [of "primary_request ''s4'' 0"
      "engine_env (exit_result 1 (Some (Plain (Errorf ''run failed'')))) Active
         (Some (Plain (Errorf ''upload failed'')))" "Plain (Errorf ''run failed'')"
      "Plain (Errorf ''upload failed'')" "[]"]
  by (simp add: primary_request_def engine_env_def exit_result_def run_ctx_def timed_out_def
      run_def wf_err_def extra_close_def)

text \<open>
  Claim C10. On the primary path, when the context of a run that is not detached ends
  canceled or past its deadline, the stored result has no process state, no outputs, no
  artifact and no v2 outputs, and keeps the telemetry of the run; the response converted
  from it, at any later state of the store, has \<open>Exited\<close> true, exit code 255, no OOM
  flag, and the text of the context error.
\<close>

theorem timed_out_step_result:
  assumes "\<not> LogDrone r" and "\<not> Detach r" and "timed_out (ctx_Err (run_ctx r env))"
  shows "State (complete_status (fst (executeStep r env h))) = None
       \<and> Outputs (complete_status (fst (executeStep r env h))) = None
       \<and> Artifact (complete_status (fst (executeStep r env h))) = None
       \<and> OutputV2 (complete_status (fst (executeStep r env h))) = None
       \<and> Telemetry (complete_status (fst (executeStep r env h))) = telemetry (run r env)
       \<and> r_Exited (fst (convertStatus (complete_status (fst (executeStep r env h))) h'))
       \<and> r_ExitCode (fst (convertStatus (complete_status (fst (executeStep r env h))) h')) = 255
       \<and> \<not> r_OOMKilled (fst (convertStatus (complete_status (fst (executeStep r env h))) h'))
       \<and> r_Telemetry (fst (convertStatus (complete_status (fst (executeStep r env h))) h'))
           = telemetry (run r env)
       \<and> r_Error (fst (convertStatus (complete_status (fst (executeStep r env h))) h'))
           = (if run_ctx r env = CtxCanceled then ''context canceled''
              else ''context deadline exceeded'')"
proof -
  let ?s = "complete_status (fst (executeStep r env h))"
  have s: "?s = \<lparr>Status = Complete, State = None, StepErr = ctx_Err (run_ctx r env),
      Outputs = None, Artifact = None, OutputV2 = None, OptimizationState = [],
      Telemetry = telemetry (run r env)\<rparr>"
    using assms by (simp add: executeStep_def complete_status_def Let_def split: prod.splits)
  have c: "run_ctx r env = CtxCanceled \<or> run_ctx r env = CtxDeadlineExceeded"
    using assms(3) by (cases "run_ctx r env") (simp_all add: timed_out_def)
  show ?thesis
    unfolding s using c by (auto simp: convertStatus_def)
qed

theorem timed_out_step_result_witness:
  "r_ExitCode (fst (convertStatus (complete_status (fst (executeStep (primary_request ''s2'' 1)
      (engine_env (exit_result 0 None) CtxDeadlineExceeded None) []))) [])) = 255
   \<and> r_Error (fst (convertStatus (complete_status (fst (executeStep (primary_request ''s2'' 1)
      (engine_env (exit_result 0 None) CtxDeadlineExceeded None) []))) []))
       = ''context deadline exceeded''"
  using timed_out_step_result [of "primary_request ''s2'' 1"
      "engine_env (exit_result 0 None) CtxDeadlineExceeded None" "[]" "[]"]
  by (simp add: primary_request_def engine_env_def run_ctx_def timed_out_def)




section \<open>The invariant holds in every interleaving\<close>

text \<open>Rules to build the invariant and to read its parts.\<close>

lemma waiters_okI:
  assumes "\<And>i. distinct (waiters m i)"
    and "\<And>i ch. ch \<in> set (waiters m i) \<Longrightarrow> ch < length (chans m)"
    and "\<And>i ch. ch \<in> set (waiters m i) \<Longrightarrow> status_of m i = Running \<Longrightarrow> chans m ! ch = []"
    and "\<And>i j ch. ch \<in> set (waiters m i) \<Longrightarrow> ch \<in> set (waiters m j) \<Longrightarrow> i = j"
    and "\<And>i. stepStatus m i = None \<Longrightarrow> stepWaitCh m i = None"
  shows "waiters_ok m"
  unfolding waiters_ok_def using assms by blast

lemma invI:
  assumes "distinct (map (\<lambda>g. ID (request g)) (goroutines m))"
    and "\<And>g. g \<in> set (goroutines m) \<Longrightarrow> goroutine_ok m g"
    and "waiters_ok m"
  shows "inv m"
  unfolding inv_def using assms by blast

lemma inv_distinct_goroutines: "inv m \<Longrightarrow> distinct (map (\<lambda>g. ID (request g)) (goroutines m))"
  by (simp add: inv_def)

lemma inv_goroutine: "inv m \<Longrightarrow> g \<in> set (goroutines m) \<Longrightarrow> goroutine_ok m g"
  by (simp add: inv_def)

lemma inv_waiters_distinct: "inv m \<Longrightarrow> distinct (waiters m i)"
  by (simp add: inv_def waiters_ok_def)

lemma inv_waiter_lt: "inv m \<Longrightarrow> ch \<in> set (waiters m i) \<Longrightarrow> ch < length (chans m)"
  by (simp add: inv_def waiters_ok_def)

lemma inv_waiter_empty:
  "inv m \<Longrightarrow> ch \<in> set (waiters m i) \<Longrightarrow> status_of m i = Running \<Longrightarrow> chans m ! ch = []"
  by (simp add: inv_def waiters_ok_def)

lemma inv_waiters_disjoint:
  "inv m \<Longrightarrow> ch \<in> set (waiters m i) \<Longrightarrow> ch \<in> set (waiters m j) \<Longrightarrow> i = j"
  unfolding inv_def waiters_ok_def by blast

lemma inv_unstarted: "inv m \<Longrightarrow> stepStatus m i = None \<Longrightarrow> stepWaitCh m i = None"
  by (simp add: inv_def waiters_ok_def)

text \<open>A goroutine stays in agreement with the registries under any change that keeps
  the status and the waiters of its identifier and empties no channel of theirs.\<close>

lemma goroutine_ok_status: "goroutine_ok m g \<Longrightarrow> stepStatus m (ID (request g)) \<noteq> None"
  by (cases g) (auto simp: goroutine_ok_def status_of_def split: option.splits)

lemma goroutine_ok_frame:
  assumes "goroutine_ok m g"
    and "stepStatus m' (ID (request g)) = stepStatus m (ID (request g))"
    and "waiters m' (ID (request g)) = waiters m (ID (request g))"
    and "\<And>ch. ch \<in> set (waiters m (ID (request g))) \<Longrightarrow> chans m ! ch = [] \<Longrightarrow> chans m' ! ch = []"
  shows "goroutine_ok m' g"
proof (cases g)
  case (Spawned r)
  then show ?thesis using assms by (simp add: goroutine_ok_def status_of_def)
next
  case (Executing r)
  then show ?thesis using assms by (simp add: goroutine_ok_def status_of_def)
next
  case (Delivering r s chs)
  then show ?thesis using assms by (fastforce simp: goroutine_ok_def)
qed

lemma inv_frame:
  assumes "inv m" and "stepStatus m' = stepStatus m" and "stepWaitCh m' = stepWaitCh m"
    and "chans m' = chans m" and "goroutines m' = goroutines m"
  shows "inv m'"
proof -
  have w: "waiters m' = waiters m" using assms(3) by (simp add: waiters_def fun_eq_iff)
  have s: "status_of m' = status_of m" using assms(2) by (simp add: status_of_def fun_eq_iff)
  have g: "goroutine_ok m' g = goroutine_ok m g" for g
    by (cases g) (simp_all add: goroutine_ok_def w s assms(2,4))
  have "waiters_ok m' = waiters_ok m"
    by (simp add: waiters_ok_def w s assms(2,3,4))
  then show ?thesis using assms(1) by (simp add: inv_def g assms(5))
qed

lemma inv_boot: "inv boot"
  by (simp add: inv_def boot_def NewStepExecutor_def waiters_ok_def waiters_def)

lemma distinct_ids_neq:
  assumes "distinct (map f xs)" and "n < length xs" and "g \<in> set xs - {xs ! n}"
  shows "f g \<noteq> f (xs ! n)"
proof -
  have i: "inj_on f (set xs)" using assms(1) by (simp add: distinct_map)
  have "xs ! n \<in> set xs" using assms(2) by simp
  then show ?thesis using i assms(3) unfolding inj_on_def by blast
qed

text \<open>Every step keeps the invariant; first the three operations of the callers.\<close>

lemma inv_StartStep: "inv m \<Longrightarrow> inv (snd (StartStep ctx r m))"
proof (cases "ID r = [] \<or> stepStatus m (ID r) \<noteq> None")
  case True
  assume "inv m"
  with True show ?thesis by (auto simp: StartStep_def)
next
  case False
  assume i: "inv m"
  let ?m = "m\<lparr>stepStatus := (stepStatus m)(ID r \<mapsto> running_status),
               goroutines := goroutines m @ [Spawned r]\<rparr>"
  have eq: "snd (StartStep ctx r m) = ?m" using False by (simp add: StartStep_def)
  have fresh: "ID (request g) \<noteq> ID r" if "g \<in> set (goroutines m)" for g
    using goroutine_ok_status [OF inv_goroutine [OF i that]] False by auto
  have w: "waiters ?m = waiters m" by (simp add: waiters_def fun_eq_iff)
  have w0: "waiters m (ID r) = []"
    using inv_unstarted [OF i, of "ID r"] False by (simp add: waiters_def)
  have "ID r \<notin> (\<lambda>g. ID (request g)) ` set (goroutines m)" using fresh by force
  then have d: "distinct (map (\<lambda>g. ID (request g)) (goroutines ?m))"
    using inv_distinct_goroutines [OF i] by simp
  have old: "goroutine_ok ?m g" if "g \<in> set (goroutines m)" for g
    by (rule goroutine_ok_frame [OF inv_goroutine [OF i that]])
       (use fresh [OF that] in \<open>simp_all add: w\<close>)
  have new: "goroutine_ok ?m (Spawned r)"
    by (simp add: goroutine_ok_def status_of_def running_status_def)
  have wo: "waiters_ok ?m"
  proof (rule waiters_okI)
    fix j show "distinct (waiters ?m j)" using inv_waiters_distinct [OF i] by (simp add: w)
  next
    fix j ch assume "ch \<in> set (waiters ?m j)"
    then show "ch < length (chans ?m)" using inv_waiter_lt [OF i, of ch j] by (simp add: w)
  next
    fix j ch assume c: "ch \<in> set (waiters ?m j)" and s: "status_of ?m j = Running"
    have "j \<noteq> ID r" using c w0 by (auto simp: w)
    then have "status_of m j = Running" using s by (simp add: status_of_def)
    then show "chans ?m ! ch = []" using inv_waiter_empty [OF i, of ch j] c by (simp add: w)
  next
    fix j k ch assume "ch \<in> set (waiters ?m j)" "ch \<in> set (waiters ?m k)"
    then show "j = k" using inv_waiters_disjoint [OF i, of ch j k] by (simp add: w)
  next
    fix j assume "stepStatus ?m j = None"
    then show "stepWaitCh ?m j = None" using inv_unstarted [OF i, of j]
      by (simp split: if_splits)
  qed
  show ?thesis unfolding eq
    by (rule invI) (use d old new wo in auto)
qed

text \<open>The three outcomes of the locked section of \<^verbatim>\<open>PollStep\<close>. On a running step
  the waiter list of the identifier becomes the new channel alone, whatever it was.\<close>

lemma PollStep_complete:
  assumes "poll_ID r \<noteq> []" and "stepStatus m (poll_ID r) = Some s" and "Status s = Complete"
  shows "PollStep ctx r m =
     (Returned (fst (convertStatus s (errs m))) None, m\<lparr>errs := snd (convertStatus s (errs m))\<rparr>)"
  using assms by (simp add: PollStep_def Let_def split: prod.splits)

lemma PollStep_register:
  assumes "poll_ID r \<noteq> []" and "stepStatus m (poll_ID r) = Some s" and "Status s \<noteq> Complete"
  shows "PollStep ctx r m =
     (Waiting (length (chans m)),
      m\<lparr>chans := chans m @ [[]],
        stepWaitCh := (stepWaitCh m)(poll_ID r \<mapsto> [length (chans m)])\<rparr>)"
  using assms by (simp add: PollStep_def Let_def waiters_def)

lemma PollStep_rejects:
  assumes "poll_ID r = [] \<or> stepStatus m (poll_ID r) = None"
  shows "snd (PollStep ctx r m) = m"
  using assms by (auto simp: PollStep_def Let_def)

lemma inv_PollStep: "inv m \<Longrightarrow> inv (snd (PollStep ctx r m))"
proof -
  assume i: "inv m"
  consider (rej) "poll_ID r = [] \<or> stepStatus m (poll_ID r) = None"
    | (fin) s where "poll_ID r \<noteq> []" "stepStatus m (poll_ID r) = Some s" "Status s = Complete"
    | (wait) s where "poll_ID r \<noteq> []" "stepStatus m (poll_ID r) = Some s" "Status s \<noteq> Complete"
    by (cases "stepStatus m (poll_ID r)") auto
  then show ?thesis
  proof cases
    case rej
    then show ?thesis using i by (simp add: PollStep_rejects)
  next
    case fin
    show ?thesis unfolding PollStep_complete [OF fin]
      by (rule inv_frame [OF i]) simp_all
  next
    case wait
    let ?i = "poll_ID r"
    let ?ch = "length (chans m)"
    let ?m = "m\<lparr>chans := chans m @ [[]], stepWaitCh := (stepWaitCh m)(?i \<mapsto> [?ch])\<rparr>"
    have wi: "waiters ?m ?i = [?ch]" by (simp add: waiters_def)
    have wj: "waiters ?m j = waiters m j" if "j \<noteq> ?i" for j using that by (simp add: waiters_def)
    have st: "status_of ?m = status_of m" by (simp add: status_of_def fun_eq_iff)
    have keep: "chans ?m ! ch = chans m ! ch" if "ch \<in> set (waiters m j)" for ch j
      using inv_waiter_lt [OF i that] by (simp add: nth_append)
    have old: "ch \<noteq> ?ch" if "ch \<in> set (waiters m j)" for ch j
      using inv_waiter_lt [OF i that] by simp
    have g: "goroutine_ok ?m g" if "g \<in> set (goroutines m)" for g
    proof -
      have ok: "goroutine_ok m g" by (rule inv_goroutine [OF i that])
      show ?thesis
      proof (cases "ID (request g) = ?i")
        case True
        then show ?thesis using ok wait by (cases g) (auto simp: goroutine_ok_def status_of_def)
      next
        case False
        show ?thesis
          by (rule goroutine_ok_frame [OF ok]) (use False keep in \<open>simp_all add: wj\<close>)
      qed
    qed
    have wo: "waiters_ok ?m"
    proof (rule waiters_okI)
      fix j show "distinct (waiters ?m j)"
        using inv_waiters_distinct [OF i, of j] by (cases "j = ?i") (simp_all add: wi wj)
    next
      fix j ch assume "ch \<in> set (waiters ?m j)"
      then show "ch < length (chans ?m)"
        using inv_waiter_lt [OF i, of ch j] by (cases "j = ?i") (auto simp: wi wj)
    next
      fix j ch assume c: "ch \<in> set (waiters ?m j)" and s: "status_of ?m j = Running"
      show "chans ?m ! ch = []"
      proof (cases "j = ?i")
        case True
        then show ?thesis using c by (simp add: wi)
      next
        case False
        then have c': "ch \<in> set (waiters m j)" using c by (simp add: wj)
        have "chans m ! ch = []" using inv_waiter_empty [OF i c'] s by (simp add: st)
        then show ?thesis using keep [OF c'] by simp
      qed
    next
      fix j k ch assume cj: "ch \<in> set (waiters ?m j)" and ck: "ch \<in> set (waiters ?m k)"
      show "j = k"
      proof (cases "j = ?i")
        case True
        then have "ch = ?ch" using cj by (simp add: wi)
        then show ?thesis using ck old [of ch k] True by (cases "k = ?i") (auto simp: wj)
      next
        case False
        then have c': "ch \<in> set (waiters m j)" using cj by (simp add: wj)
        then have "k \<noteq> ?i" using ck old [OF c'] by (auto simp: wi)
        then show ?thesis using inv_waiters_disjoint [OF i c', of k] ck by (simp add: wj)
      qed
    next
      fix j assume "stepStatus ?m j = None"
      then show "stepWaitCh ?m j = None" using inv_unstarted [OF i, of j] wait by auto
    qed
    show ?thesis unfolding PollStep_register [OF wait]
      by (rule invI) (use inv_distinct_goroutines [OF i] g wo in simp_all)
  qed
qed

lemma PollStep_receive_Some:
  assumes "PollStep_receive ctx ch m = Some (resp, e, m')"
  shows "ch < length (chans m) \<and> chans m ! ch \<noteq> []
       \<and> m' = m\<lparr>chans := (chans m)[ch := tl (chans m ! ch)],
                 errs := snd (convertStatus (hd (chans m ! ch)) (errs m))\<rparr>
       \<and> resp = fst (convertStatus (hd (chans m ! ch)) (errs m)) \<and> e = None"
  using assms
  by (auto simp: PollStep_receive_def Let_def split: if_splits list.splits prod.splits)

lemma inv_receive:
  assumes i: "inv m" and c: "ch < length (chans m)" and ne: "chans m ! ch \<noteq> []"
  shows "inv (m\<lparr>chans := (chans m)[ch := x], errs := h\<rparr>)"
proof -
  let ?m = "m\<lparr>chans := (chans m)[ch := x], errs := h\<rparr>"
  have w: "waiters ?m = waiters m" by (simp add: waiters_def fun_eq_iff)
  have st: "status_of ?m = status_of m" by (simp add: status_of_def fun_eq_iff)
  have keep: "chans ?m ! c = []" if "chans m ! c = []" for c
    using that ne by (cases "c = ch") auto
  have g: "goroutine_ok ?m g" if "g \<in> set (goroutines m)" for g
    by (rule goroutine_ok_frame [OF inv_goroutine [OF i that]]) (use keep in \<open>simp_all add: w\<close>)
  have wo: "waiters_ok ?m"
  proof (rule waiters_okI)
    fix j show "distinct (waiters ?m j)" using inv_waiters_distinct [OF i] by (simp add: w)
  next
    fix j ch assume "ch \<in> set (waiters ?m j)"
    then show "ch < length (chans ?m)" using inv_waiter_lt [OF i, of ch j] by (simp add: w)
  next
    fix j ch assume "ch \<in> set (waiters ?m j)" "status_of ?m j = Running"
    then show "chans ?m ! ch = []" using inv_waiter_empty [OF i, of ch j] keep by (simp add: w st)
  next
    fix j k ch assume "ch \<in> set (waiters ?m j)" "ch \<in> set (waiters ?m k)"
    then show "j = k" using inv_waiters_disjoint [OF i, of ch j k] by (simp add: w)
  next
    fix j assume "stepStatus ?m j = None"
    then show "stepWaitCh ?m j = None" using inv_unstarted [OF i, of j] by simp
  qed
  show ?thesis
    by (rule invI) (use inv_distinct_goroutines [OF i] g wo in simp_all)
qed

lemma inv_step_Receive:
  assumes "inv m"
  shows "inv (step (Receive ctx ch) m)"
proof (cases "PollStep_receive ctx ch m")
  case None
  then show ?thesis using assms by simp
next
  case (Some t)
  obtain resp e m' where t: "t = (resp, e, m')" by (cases t)
  show ?thesis
    using PollStep_receive_Some [OF Some [unfolded t]] inv_receive [OF assms] Some t by auto
qed

text \<open>Then the steps of the goroutine.\<close>

lemma register_fields [simp]:
  "stepStatus (executeStep_register r m) = stepStatus m"
  "stepWaitCh (executeStep_register r m) = stepWaitCh m"
  "chans (executeStep_register r m) = chans m"
  "errs (executeStep_register r m) = errs m"
  "goroutines (executeStep_register r m) = goroutines m"
  by (simp_all add: executeStep_register_def)

lemma release_fields [simp]:
  "stepStatus (executeStep_release r m) = stepStatus m"
  "stepWaitCh (executeStep_release r m) = stepWaitCh m"
  "chans (executeStep_release r m) = chans m"
  "errs (executeStep_release r m) = errs m"
  "goroutines (executeStep_release r m) = goroutines m"
  by (simp_all add: executeStep_release_def cancel_scope_def split: option.splits)

lemma scope_end_fields [simp]:
  "stepStatus (scope_end n m) = stepStatus m"
  "stepWaitCh (scope_end n m) = stepWaitCh m"
  "chans (scope_end n m) = chans m"
  "errs (scope_end n m) = errs m"
  "goroutines (scope_end n m) = goroutines m"
  by (simp_all add: scope_end_def cancel_scope_def Let_def split: option.splits)

lemma goroutine_begin_cases:
  "goroutine_begin n m = m
   \<or> (\<exists>r. n < length (goroutines m) \<and> goroutines m ! n = Spawned r
         \<and> goroutine_begin n m =
             (executeStep_register r m)\<lparr>goroutines := (goroutines m)[n := Executing r]\<rparr>)"
  by (auto simp: goroutine_begin_def split: goroutine.splits)

lemma goroutine_finish_cases:
  "goroutine_finish n env m = m
   \<or> (\<exists>r. n < length (goroutines m) \<and> goroutines m ! n = Executing r
         \<and> goroutine_finish n env m =
             (executeStep_release r m)
               \<lparr>stepStatus := (stepStatus m)
                  (ID r \<mapsto> complete_status (fst (executeStep r env (errs m)))),
                errs := snd (executeStep r env (errs m)),
                goroutines := (goroutines m)
                  [n := Delivering r (complete_status (fst (executeStep r env (errs m))))
                          (waiters m (ID r))]\<rparr>)"
  by (auto simp: goroutine_finish_def Let_def split: goroutine.splits prod.splits)

lemma goroutine_send_cases:
  "goroutine_send n m = m
   \<or> (\<exists>r s ch rest. n < length (goroutines m) \<and> goroutines m ! n = Delivering r s (ch # rest)
         \<and> ch < length (chans m) \<and> chans m ! ch = []
         \<and> goroutine_send n m =
             m\<lparr>chans := (chans m)[ch := [s]],
               goroutines := (goroutines m)[n := Delivering r s rest]\<rparr>)"
  by (auto simp: goroutine_send_def split: goroutine.splits list.splits)

lemma distinct_update_same:
  assumes "distinct (map f xs)" and "n < length xs" and "f y = f (xs ! n)"
  shows "distinct (map f (xs[n := y]))"
proof -
  have "map f (xs[n := y]) = (map f xs)[n := f (xs ! n)]" using assms(3) by (simp add: map_update)
  also have "\<dots> = map f xs" using assms(2) by (simp add: list_update_same_conv)
  finally show ?thesis using assms(1) by simp
qed

lemma set_update_cases:
  assumes "distinct (map f xs)" and "n < length xs" and "g \<in> set (xs[n := y])"
  shows "g = y \<or> (g \<in> set xs \<and> f g \<noteq> f (xs ! n))"
proof -
  have "distinct xs" using assms(1) by (simp add: distinct_map)
  then have "set (xs[n := y]) = insert y (set xs - {xs ! n})"
    using assms(2) by (rule set_update_distinct)
  then show ?thesis using assms distinct_ids_neq [OF assms(1,2), of g] by auto
qed

lemma inv_goroutine_begin: "inv m \<Longrightarrow> inv (goroutine_begin n m)"
proof -
  assume i: "inv m"
  from goroutine_begin_cases [of n m] show ?thesis
  proof
    assume "goroutine_begin n m = m" then show ?thesis using i by simp
  next
    assume "\<exists>r. n < length (goroutines m) \<and> goroutines m ! n = Spawned r
         \<and> goroutine_begin n m =
             (executeStep_register r m)\<lparr>goroutines := (goroutines m)[n := Executing r]\<rparr>"
    then obtain r where n: "n < length (goroutines m)" and r: "goroutines m ! n = Spawned r"
      and eq: "goroutine_begin n m =
             (executeStep_register r m)\<lparr>goroutines := (goroutines m)[n := Executing r]\<rparr>"
      by blast
    let ?m = "(executeStep_register r m)\<lparr>goroutines := (goroutines m)[n := Executing r]\<rparr>"
    have w: "waiters ?m = waiters m" by (simp add: waiters_def fun_eq_iff)
    have st: "status_of ?m = status_of m" by (simp add: status_of_def fun_eq_iff)
    have ok: "goroutine_ok m (Spawned r)" using inv_goroutine [OF i, of "Spawned r"] n r
      by (metis nth_mem)
    have g: "goroutine_ok ?m g" if "g \<in> set (goroutines ?m)" for g
    proof -
      have "g = Executing r \<or> g \<in> set (goroutines m)"
        using that set_update_subset_insert [of "goroutines m" n "Executing r"] by auto
      then show ?thesis
      proof
        assume "g = Executing r"
        then show ?thesis using ok by (simp add: goroutine_ok_def st)
      next
        assume "g \<in> set (goroutines m)"
        then show ?thesis
          by (intro goroutine_ok_frame [OF inv_goroutine [OF i]]) (simp_all add: w)
      qed
    qed
    have d: "distinct (map (\<lambda>g. ID (request g)) (goroutines ?m))"
      using distinct_update_same [OF inv_distinct_goroutines [OF i] n, of "Executing r"] r by simp
    have wo: "waiters_ok ?m"
      using i by (simp add: inv_def waiters_ok_def w st)
    show ?thesis unfolding eq by (rule invI [OF d g wo])
  qed
qed

lemma inv_finish:
  assumes i: "inv m" and n: "n < length (goroutines m)" and r: "goroutines m ! n = Executing r"
    and c: "Status s = Complete"
  shows "inv ((executeStep_release r m)
               \<lparr>stepStatus := (stepStatus m)(ID r \<mapsto> s), errs := h,
                goroutines := (goroutines m)[n := Delivering r s (waiters m (ID r))]\<rparr>)"
proof -
  let ?m = "(executeStep_release r m)
               \<lparr>stepStatus := (stepStatus m)(ID r \<mapsto> s), errs := h,
                goroutines := (goroutines m)[n := Delivering r s (waiters m (ID r))]\<rparr>"
  have w: "waiters ?m = waiters m" by (simp add: waiters_def fun_eq_iff)
  have ok: "goroutine_ok m (Executing r)" using inv_goroutine [OF i, of "Executing r"] n r
    by (metis nth_mem)
  then have run: "status_of m (ID r) = Running" by (simp add: goroutine_ok_def)
  have g: "goroutine_ok ?m g" if "g \<in> set (goroutines ?m)" for g
  proof -
    have "g = Delivering r s (waiters m (ID r))
        \<or> (g \<in> set (goroutines m) \<and> ID (request g) \<noteq> ID (request (goroutines m ! n)))"
      using set_update_cases [OF inv_distinct_goroutines [OF i] n, of g] that by simp
    then show ?thesis
    proof
      assume "g = Delivering r s (waiters m (ID r))"
      then show ?thesis
        using inv_waiters_distinct [OF i, of "ID r"] inv_waiter_empty [OF i _ run] c
        by (simp add: goroutine_ok_def w)
    next
      assume a: "g \<in> set (goroutines m) \<and> ID (request g) \<noteq> ID (request (goroutines m ! n))"
      then have "ID (request g) \<noteq> ID r" using r by simp
      then show ?thesis using a
        by (intro goroutine_ok_frame [OF inv_goroutine [OF i]]) (simp_all add: w)
    qed
  qed
  have d: "distinct (map (\<lambda>g. ID (request g)) (goroutines ?m))"
    using distinct_update_same [OF inv_distinct_goroutines [OF i] n,
        of "Delivering r s (waiters m (ID r))"] r by simp
  have wo: "waiters_ok ?m"
  proof (rule waiters_okI)
    fix j show "distinct (waiters ?m j)" using inv_waiters_distinct [OF i] by (simp add: w)
  next
    fix j ch assume "ch \<in> set (waiters ?m j)"
    then show "ch < length (chans ?m)" using inv_waiter_lt [OF i, of ch j] by (simp add: w)
  next
    fix j ch assume a: "ch \<in> set (waiters ?m j)" and s: "status_of ?m j = Running"
    have "j \<noteq> ID r" using s c by (auto simp: status_of_def)
    then have "status_of m j = Running" using s by (simp add: status_of_def)
    then show "chans ?m ! ch = []" using inv_waiter_empty [OF i, of ch j] a by (simp add: w)
  next
    fix j k ch assume "ch \<in> set (waiters ?m j)" "ch \<in> set (waiters ?m k)"
    then show "j = k" using inv_waiters_disjoint [OF i, of ch j k] by (simp add: w)
  next
    fix j assume "stepStatus ?m j = None"
    then show "stepWaitCh ?m j = None" using inv_unstarted [OF i, of j]
      by (simp split: if_splits)
  qed
  show ?thesis by (rule invI [OF d g wo])
qed

lemma inv_goroutine_finish: "inv m \<Longrightarrow> inv (goroutine_finish n env m)"
proof -
  assume i: "inv m"
  from goroutine_finish_cases [of n env m] show ?thesis
  proof
    assume "goroutine_finish n env m = m" then show ?thesis using i by simp
  next
    assume "\<exists>r. n < length (goroutines m) \<and> goroutines m ! n = Executing r
         \<and> goroutine_finish n env m =
             (executeStep_release r m)
               \<lparr>stepStatus := (stepStatus m)
                  (ID r \<mapsto> complete_status (fst (executeStep r env (errs m)))),
                errs := snd (executeStep r env (errs m)),
                goroutines := (goroutines m)
                  [n := Delivering r (complete_status (fst (executeStep r env (errs m))))
                          (waiters m (ID r))]\<rparr>"
    then obtain r where n: "n < length (goroutines m)" and r: "goroutines m ! n = Executing r"
      and eq: "goroutine_finish n env m =
             (executeStep_release r m)
               \<lparr>stepStatus := (stepStatus m)
                  (ID r \<mapsto> complete_status (fst (executeStep r env (errs m)))),
                errs := snd (executeStep r env (errs m)),
                goroutines := (goroutines m)
                  [n := Delivering r (complete_status (fst (executeStep r env (errs m))))
                          (waiters m (ID r))]\<rparr>"
      by blast
    have c: "Status (complete_status (fst (executeStep r env (errs m)))) = Complete"
      by (simp add: complete_status_def)
    show ?thesis unfolding eq by (rule inv_finish [OF i n r c])
  qed
qed

lemma inv_goroutine_send: "inv m \<Longrightarrow> inv (goroutine_send n m)"
proof -
  assume i: "inv m"
  from goroutine_send_cases [of n m] show ?thesis
  proof
    assume "goroutine_send n m = m" then show ?thesis using i by simp
  next
    assume "\<exists>r s ch rest. n < length (goroutines m) \<and> goroutines m ! n = Delivering r s (ch # rest)
         \<and> ch < length (chans m) \<and> chans m ! ch = []
         \<and> goroutine_send n m =
             m\<lparr>chans := (chans m)[ch := [s]],
               goroutines := (goroutines m)[n := Delivering r s rest]\<rparr>"
    then obtain r s ch rest where n: "n < length (goroutines m)"
      and r: "goroutines m ! n = Delivering r s (ch # rest)"
      and eq: "goroutine_send n m =
             m\<lparr>chans := (chans m)[ch := [s]],
               goroutines := (goroutines m)[n := Delivering r s rest]\<rparr>"
      by blast
    let ?m = "m\<lparr>chans := (chans m)[ch := [s]],
               goroutines := (goroutines m)[n := Delivering r s rest]\<rparr>"
    have w: "waiters ?m = waiters m" by (simp add: waiters_def fun_eq_iff)
    have st: "status_of ?m = status_of m" by (simp add: status_of_def fun_eq_iff)
    have ok: "goroutine_ok m (Delivering r s (ch # rest))"
      using inv_goroutine [OF i, of "Delivering r s (ch # rest)"] n r by (metis nth_mem)
    then have chw: "ch \<in> set (waiters m (ID r))" and fin: "status_of m (ID r) = Complete"
      and nin: "ch \<notin> set rest"
      by (simp_all add: goroutine_ok_def status_of_def)
    have other: "c \<noteq> ch" if "c \<in> set (waiters m j)" "j \<noteq> ID r" for c j
      using inv_waiters_disjoint [OF i chw, of j] that by auto
    have g: "goroutine_ok ?m g" if "g \<in> set (goroutines ?m)" for g
    proof -
      have "g = Delivering r s rest
          \<or> (g \<in> set (goroutines m) \<and> ID (request g) \<noteq> ID (request (goroutines m ! n)))"
        using set_update_cases [OF inv_distinct_goroutines [OF i] n, of g] that by simp
      then show ?thesis
      proof
        assume e: "g = Delivering r s rest"
        have "chans ?m ! c = []" if "c \<in> set rest" for c
        proof -
          have "c \<noteq> ch" using that nin by auto
          then show ?thesis using ok that by (simp add: goroutine_ok_def)
        qed
        then show ?thesis using ok e by (simp add: goroutine_ok_def w)
      next
        assume a: "g \<in> set (goroutines m) \<and> ID (request g) \<noteq> ID (request (goroutines m ! n))"
        then have ne: "ID (request g) \<noteq> ID r" using r by simp
        have "chans ?m ! c = chans m ! c" if "c \<in> set (waiters m (ID (request g)))" for c
          using other [OF that ne] by simp
        then show ?thesis using a
          by (intro goroutine_ok_frame [OF inv_goroutine [OF i]]) (simp_all add: w)
      qed
    qed
    have d: "distinct (map (\<lambda>g. ID (request g)) (goroutines ?m))"
      using distinct_update_same [OF inv_distinct_goroutines [OF i] n, of "Delivering r s rest"] r
      by simp
    have wo: "waiters_ok ?m"
    proof (rule waiters_okI)
      fix j show "distinct (waiters ?m j)" using inv_waiters_distinct [OF i] by (simp add: w)
    next
      fix j c assume "c \<in> set (waiters ?m j)"
      then show "c < length (chans ?m)" using inv_waiter_lt [OF i, of c j] by (simp add: w)
    next
      fix j c assume a: "c \<in> set (waiters ?m j)" and s: "status_of ?m j = Running"
      have "j \<noteq> ID r" using s fin by (auto simp: st)
      then have "c \<noteq> ch" using other [of c j] a by (simp add: w)
      then show "chans ?m ! c = []" using inv_waiter_empty [OF i, of c j] a s by (simp add: w st)
    next
      fix j k c assume "c \<in> set (waiters ?m j)" "c \<in> set (waiters ?m k)"
      then show "j = k" using inv_waiters_disjoint [OF i, of c j k] by (simp add: w)
    next
      fix j assume "stepStatus ?m j = None"
      then show "stepWaitCh ?m j = None" using inv_unstarted [OF i, of j] by simp
    qed
    show ?thesis unfolding eq by (rule invI [OF d g wo])
  qed
qed

text \<open>The steps of \<^verbatim>\<open>StreamOutput\<close> touch the log registry, the live channels and the
  watchers only.\<close>

lemma StreamOutput_fields:
  "stepStatus (snd (StreamOutput ctx r t m)) = stepStatus m"
  "stepWaitCh (snd (StreamOutput ctx r t m)) = stepWaitCh m"
  "chans (snd (StreamOutput ctx r t m)) = chans m"
  "goroutines (snd (StreamOutput ctx r t m)) = goroutines m"
  "errs (snd (StreamOutput ctx r t m)) = errs m"
  by (simp_all add: StreamOutput_def Let_def Subscribe_def split: option.splits)

lemma StreamOutput_watcher_fields:
  assumes "StreamOutput_watcher ctx n m = Some m'"
  shows "stepStatus m' = stepStatus m \<and> stepWaitCh m' = stepWaitCh m \<and> chans m' = chans m
       \<and> goroutines m' = goroutines m \<and> errs m' = errs m"
  using assms
  by (auto simp: StreamOutput_watcher_def split: if_splits watcher.splits option.splits)

lemma inv_step: "inv m \<Longrightarrow> inv (step ev m)"
proof (cases ev)
  case (Start ctx r)
  assume "inv m" then show ?thesis using Start by (simp add: inv_StartStep)
next
  case (Poll ctx r)
  assume "inv m" then show ?thesis using Poll by (simp add: inv_PollStep)
next
  case (Receive ctx ch)
  assume "inv m" then show ?thesis using Receive inv_step_Receive by simp
next
  case (Begin n)
  assume "inv m" then show ?thesis using Begin by (simp add: inv_goroutine_begin)
next
  case (Finish n env)
  assume "inv m" then show ?thesis using Finish by (simp add: inv_goroutine_finish)
next
  case (Send n)
  assume "inv m" then show ?thesis using Send by (simp add: inv_goroutine_send)
next
  case (Stream ctx r t)
  assume i: "inv m"
  show ?thesis unfolding Stream step.simps
    by (rule inv_frame [OF i]) (simp_all add: StreamOutput_fields)
next
  case (Watch ctx n)
  assume i: "inv m"
  show ?thesis
  proof (cases "StreamOutput_watcher ctx n m")
    case None
    then show ?thesis using i Watch by simp
  next
    case (Some m')
    have "inv m'" by (rule inv_frame [OF i]) (simp_all add: StreamOutput_watcher_fields [OF Some])
    then show ?thesis using Watch Some by simp
  qed
next
  case (ScopeEnd n)
  assume i: "inv m"
  show ?thesis unfolding ScopeEnd step.simps
    by (rule inv_frame [OF i]) simp_all
qed

lemma inv_steps: "inv m \<Longrightarrow> inv (steps evs m)"
  by (induction evs arbitrary: m) (simp_all add: inv_step)

lemma inv_reachable: "inv (steps evs boot)"
  by (rule inv_steps [OF inv_boot])

section \<open>Properties of the registries\<close>

text \<open>Facts to evaluate sample runs.\<close>

lemma primary_request_fields [simp]:
  "ID (primary_request i t) = i" "LogDrone (primary_request i t) = False"
  "Detach (primary_request i t) = False" "Timeout (primary_request i t) = t"
  "Kind (primary_request i t) = Run"
  by (simp_all add: primary_request_def)

lemmas machine_defs =
  StartStep_def PollStep_def PollStep_receive_def goroutine_begin_def goroutine_finish_def
  goroutine_send_def executeStep_register_def executeStep_release_def cancel_scope_def
  waiters_def Let_def
  running_status_def

lemmas boot_defs = boot_def NewStepExecutor_def

lemma steps_append: "steps (xs @ ys) m = steps ys (steps xs m)"
  by (induction xs arbitrary: m) simp_all

text \<open>A status entry, once there, stays.\<close>

lemma status_kept_step: "stepStatus m i \<noteq> None \<Longrightarrow> stepStatus (step ev m) i \<noteq> None"
proof (cases ev)
  case (Start ctx r)
  assume "stepStatus m i \<noteq> None" then show ?thesis using Start by (simp add: StartStep_def)
next
  case (Poll ctx r)
  assume "stepStatus m i \<noteq> None" then show ?thesis using Poll
    by (simp add: PollStep_def Let_def split: option.splits prod.splits)
next
  case (Receive ctx ch)
  assume "stepStatus m i \<noteq> None" then show ?thesis using Receive
    by (auto split: option.splits dest!: PollStep_receive_Some)
next
  case (Begin n)
  assume "stepStatus m i \<noteq> None" then show ?thesis using Begin goroutine_begin_cases [of n m]
    by auto
next
  case (Finish n env)
  assume "stepStatus m i \<noteq> None" then show ?thesis using Finish goroutine_finish_cases [of n env m]
    by auto
next
  case (Send n)
  assume "stepStatus m i \<noteq> None" then show ?thesis using Send goroutine_send_cases [of n m]
    by auto
next
  case (Stream ctx r t)
  assume "stepStatus m i \<noteq> None" then show ?thesis using Stream
    by (simp add: StreamOutput_fields)
next
  case (Watch ctx n)
  assume "stepStatus m i \<noteq> None" then show ?thesis using Watch
    by (auto split: option.splits dest: StreamOutput_watcher_fields)
next
  case (ScopeEnd n)
  assume "stepStatus m i \<noteq> None" then show ?thesis using ScopeEnd by simp
qed

lemma status_kept_steps: "stepStatus m i \<noteq> None \<Longrightarrow> stepStatus (steps evs m) i \<noteq> None"
proof (induction evs arbitrary: m)
  case Nil
  then show ?case by simp
next
  case (Cons ev evs)
  show ?case using Cons.IH [OF status_kept_step [OF Cons.prems]] by simp
qed

lemma distinct_count_le_one: "distinct (map f xs) \<Longrightarrow> length (filter (\<lambda>x. f x = i) xs) \<le> 1"
proof (induction xs)
  case Nil
  then show ?case by simp
next
  case (Cons x xs)
  show ?case
  proof (cases "f x = i")
    case True
    then have "i \<notin> f ` set xs" using Cons.prems by auto
    then have "filter (\<lambda>x. f x = i) xs = []" by (auto simp: filter_empty_conv)
    then show ?thesis using True by simp
  next
    case False
    then show ?thesis using Cons by simp
  qed
qed

text \<open>
  Claim C2. Once \<^verbatim>\<open>StartStep\<close> has been called with a non-empty identifier, then in
  every interleaving that follows, any further call with that identifier returns nil and
  leaves the machine as it is, so no second goroutine is launched; and the machine never
  holds more than one goroutine for the identifier.
\<close>

theorem start_runs_at_most_once:
  assumes "ID r \<noteq> []" and "ID r' = ID r"
  shows "StartStep ctx' r' (steps (evs @ Start ctx r # evs') boot)
           = (None, steps (evs @ Start ctx r # evs') boot)
       \<and> length (filter (\<lambda>g. ID (request g) = ID r)
                  (goroutines (steps (evs @ Start ctx r # evs') boot))) \<le> 1"
proof -
  let ?m = "steps (evs @ Start ctx r # evs') boot"
  have "stepStatus (step (Start ctx r) (steps evs boot)) (ID r) \<noteq> None"
    using assms(1) by (simp add: StartStep_def)
  then have "stepStatus ?m (ID r) \<noteq> None"
    by (simp add: steps_append status_kept_steps)
  then have a: "StartStep ctx' r' ?m = (None, ?m)"
    using assms by (simp add: StartStep_def)
  have b: "length (filter (\<lambda>g. ID (request g) = ID r) (goroutines ?m)) \<le> 1"
    by (rule distinct_count_le_one [OF inv_distinct_goroutines [OF inv_reachable]])
  show ?thesis using a b by simp
qed

text \<open>Claim C2 at a sample run: a second start of step \<open>s1\<close> while it executes.\<close>

theorem start_runs_at_most_once_witness:
  "StartStep Active (primary_request ''s1'' 5)
       (steps [Start Active (primary_request ''s1'' 0), Begin 0] boot)
     = (None, steps [Start Active (primary_request ''s1'' 0), Begin 0] boot)
   \<and> length (goroutines (steps [Start Active (primary_request ''s1'' 0), Begin 0] boot)) = 1"
  using start_runs_at_most_once [of "primary_request ''s1'' 0" "primary_request ''s1'' 5"
      Active "[]" Active "[Begin 0]"]
  by (simp add: machine_defs boot_defs)

text \<open>The delivery loop serves every channel of its list once.\<close>

lemma goroutine_send_eq:
  assumes "n < length (goroutines m)" and "goroutines m ! n = Delivering r s (ch # rest)"
    and "ch < length (chans m)" and "chans m ! ch = []"
  shows "goroutine_send n m =
           m\<lparr>chans := (chans m)[ch := [s]],
             goroutines := (goroutines m)[n := Delivering r s rest]\<rparr>"
  using assms by (simp add: goroutine_send_def)

lemma deliver_all:
  assumes "inv m" and "n < length (goroutines m)" and "goroutines m ! n = Delivering r s chs"
  shows "goroutines (steps (replicate (length chs) (Send n)) m) ! n = Delivering r s []
       \<and> (\<forall>ch \<in> set chs. chans (steps (replicate (length chs) (Send n)) m) ! ch = [s])
       \<and> (\<forall>ch. ch \<notin> set chs \<longrightarrow>
             chans (steps (replicate (length chs) (Send n)) m) ! ch = chans m ! ch)
       \<and> stepWaitCh (steps (replicate (length chs) (Send n)) m) = stepWaitCh m
       \<and> stepStatus (steps (replicate (length chs) (Send n)) m) = stepStatus m"
  using assms
proof (induction chs arbitrary: m)
  case Nil
  then show ?case by simp
next
  case (Cons ch rest)
  have ok: "goroutine_ok m (Delivering r s (ch # rest))"
    using inv_goroutine [OF Cons.prems(1), of "Delivering r s (ch # rest)"] Cons.prems(2,3)
    by (metis nth_mem)
  then have e: "chans m ! ch = []" and w: "ch \<in> set (waiters m (ID r))" and nin: "ch \<notin> set rest"
    by (simp_all add: goroutine_ok_def)
  have lt: "ch < length (chans m)" by (rule inv_waiter_lt [OF Cons.prems(1) w])
  let ?m = "m\<lparr>chans := (chans m)[ch := [s]],
              goroutines := (goroutines m)[n := Delivering r s rest]\<rparr>"
  have eq: "goroutine_send n m = ?m"
    by (rule goroutine_send_eq [OF Cons.prems(2,3) lt e])
  have i: "inv ?m" using inv_goroutine_send [OF Cons.prems(1), of n] eq by simp
  have n': "n < length (goroutines ?m)" using Cons.prems(2) by simp
  have g': "goroutines ?m ! n = Delivering r s rest" using Cons.prems(2) by simp
  note ih = Cons.IH [OF i n' g']
  let ?k = "steps (replicate (length rest) (Send n)) ?m"
  have st: "steps (replicate (length (ch # rest)) (Send n)) m = ?k" by (simp add: eq)
  have a: "chans ?k ! ch = [s]" using ih nin lt by simp
  have b: "chans ?k ! c = chans m ! c" if "c \<notin> set (ch # rest)" for c
    using ih that by simp
  show ?case unfolding st using ih a b by auto
qed

text \<open>
  Claim C8, as the code has it. Let the goroutine of a step finish in a machine reached
  from the initial one. The status entry of the identifier becomes the Complete status.
  The waiter list read under the lock has distinct channels, all empty; the sends of the
  loop put that status once into each of them and touch no other channel. The waiter list
  of the registry is the same before, after the locked update and after the loop: the
  code never clears it.
\<close>

theorem completion_delivers_and_keeps_waiters:
  assumes "m = steps evs boot" and "n < length (goroutines m)"
    and "goroutines m ! n = Executing r"
    and "s = complete_status (fst (executeStep r env (errs m)))"
    and "m1 = step (Finish n env) m"
    and "m2 = steps (replicate (length (waiters m (ID r))) (Send n)) m1"
  shows "stepStatus m1 (ID r) = Some s \<and> Status s = Complete
       \<and> goroutines m1 ! n = Delivering r s (waiters m (ID r))
       \<and> goroutines m2 ! n = Delivering r s []
       \<and> distinct (waiters m (ID r))
       \<and> (\<forall>ch \<in> set (waiters m (ID r)). chans m ! ch = [] \<and> chans m2 ! ch = [s])
       \<and> (\<forall>ch. ch \<notin> set (waiters m (ID r)) \<longrightarrow> chans m2 ! ch = chans m ! ch)
       \<and> stepStatus m2 (ID r) = Some s
       \<and> stepWaitCh m1 = stepWaitCh m \<and> stepWaitCh m2 = stepWaitCh m"
proof -
  have i: "inv m" unfolding assms(1) by (rule inv_reachable)
  have eq: "m1 = (executeStep_release r m)
               \<lparr>stepStatus := (stepStatus m)(ID r \<mapsto> s),
                errs := snd (executeStep r env (errs m)),
                goroutines := (goroutines m)[n := Delivering r s (waiters m (ID r))]\<rparr>"
    using assms(2,3) unfolding assms(4,5)
    by (simp add: goroutine_finish_def Let_def split: prod.splits)
  have i1: "inv m1" unfolding assms(5) by (rule inv_step [OF i])
  have n1: "n < length (goroutines m1)" using assms(2) by (simp add: eq)
  have g1: "goroutines m1 ! n = Delivering r s (waiters m (ID r))" using assms(2) by (simp add: eq)
  have c1: "chans m1 = chans m" by (simp add: eq)
  have w1: "stepWaitCh m1 = stepWaitCh m" by (simp add: eq)
  have s1: "stepStatus m1 (ID r) = Some s" by (simp add: eq)
  have ok: "goroutine_ok m (Executing r)"
    using inv_goroutine [OF i, of "Executing r"] assms(2,3) by (metis nth_mem)
  then have run: "status_of m (ID r) = Running" by (simp add: goroutine_ok_def)
  have e: "chans m ! ch = []" if "ch \<in> set (waiters m (ID r))" for ch
    by (rule inv_waiter_empty [OF i that run])
  note d = deliver_all [OF i1 n1 g1, folded assms(6)]
  show ?thesis
    using d e s1 g1 w1 inv_waiters_distinct [OF i, of "ID r"]
    by (simp add: c1 assms(4) complete_status_def)
qed

lemma executeStep_clean:
  "executeStep (primary_request i t) clean_env h = (exit_result 0 None, h)"
  by (simp add: executeStep_def clean_env_def engine_env_def run_def
      run_ctx_def exit_result_def timed_out_def Let_def)

lemma one_waiter_machine:
  "steps one_waiter_trace boot =
     \<lparr>stepStatus = [''s1'' \<mapsto> running_status], stepLog = Map.empty,
      stepWaitCh = [''s1'' \<mapsto> [0]], chans = [[]], dataChans = [], errs = [],
      goroutines = [Executing (primary_request ''s1'' 0)], watchers = []\<rparr>"
  by (simp add: one_waiter_trace_def poll_request_def machine_defs boot_defs)

text \<open>
  Claim C8 as stated fails in its last part: with one caller waiting on step \<open>s1\<close>,
  after the run has completed and the goroutine has served its last channel, the registry
  still holds the waiter list \<open>[0]\<close> for \<open>s1\<close>.
\<close>

theorem waiter_list_not_cleared_counterexample:
  "goroutines (steps (one_waiter_trace @ [Finish 0 clean_env, Send 0]) boot) ! 0
     = Delivering (primary_request ''s1'' 0) clean_status []
   \<and> chans (steps (one_waiter_trace @ [Finish 0 clean_env, Send 0]) boot) = [[clean_status]]
   \<and> stepWaitCh (steps (one_waiter_trace @ [Finish 0 clean_env, Send 0]) boot) ''s1'' = Some [0]"
  by (simp add: steps_append one_waiter_machine executeStep_clean clean_status_def machine_defs)

text \<open>Claim C8, the amended statement at the same run.\<close>

theorem completion_delivers_and_keeps_waiters_witness:
  "chans (steps (replicate 1 (Send 0)) (step (Finish 0 clean_env) (steps one_waiter_trace boot))) ! 0
     = [clean_status]
   \<and> stepWaitCh (steps (replicate 1 (Send 0)) (step (Finish 0 clean_env) (steps one_waiter_trace boot)))
       ''s1'' = Some [0]"
  using completion_delivers_and_keeps_waiters [of "steps one_waiter_trace boot" one_waiter_trace 0
      "primary_request ''s1'' 0" clean_status clean_env
      "step (Finish 0 clean_env) (steps one_waiter_trace boot)"
      "steps (replicate 1 (Send 0)) (step (Finish 0 clean_env) (steps one_waiter_trace boot))"]
  by (simp add: one_waiter_machine executeStep_clean clean_status_def machine_defs)

lemma two_polls_machine:
  "steps two_polls_trace boot =
     \<lparr>stepStatus = [''s1'' \<mapsto> running_status], stepLog = Map.empty,
      stepWaitCh = [''s1'' \<mapsto> [1]], chans = [[], []], dataChans = [], errs = [],
      goroutines = [Spawned (primary_request ''s1'' 0)], watchers = []\<rparr>"
  by (simp add: two_polls_trace_def poll_request_def machine_defs boot_defs)

text \<open>No step ever fills a channel that is empty and in nobody's list.\<close>

lemma starved_step: "starved ch m \<Longrightarrow> starved ch (step ev m)"
proof (cases ev)
  case (Start ctx r)
  assume "starved ch m" then show ?thesis using Start
    by (auto simp: starved_def StartStep_def waiters_def)
next
  case (Poll ctx r)
  assume a: "starved ch m"
  consider (rej) "poll_ID r = [] \<or> stepStatus m (poll_ID r) = None"
    | (fin) s where "poll_ID r \<noteq> []" "stepStatus m (poll_ID r) = Some s" "Status s = Complete"
    | (wait) s where "poll_ID r \<noteq> []" "stepStatus m (poll_ID r) = Some s" "Status s \<noteq> Complete"
    by (cases "stepStatus m (poll_ID r)") auto
  then show ?thesis
  proof cases
    case rej
    then show ?thesis using a Poll by (simp add: PollStep_rejects)
  next
    case fin
    show ?thesis using a unfolding Poll step.simps PollStep_complete [OF fin]
      by (simp add: starved_def waiters_def)
  next
    case wait
    show ?thesis using a unfolding Poll step.simps PollStep_register [OF wait]
      by (auto simp: starved_def waiters_def nth_append split: if_splits)
  qed
next
  case (Receive ctx c)
  assume a: "starved ch m"
  show ?thesis
  proof (cases "PollStep_receive ctx c m")
    case None
    then show ?thesis using a Receive by simp
  next
    case (Some t)
    obtain resp e m' where t: "t = (resp, e, m')" by (cases t)
    note f = PollStep_receive_Some [OF Some [unfolded t]]
    then have "c \<noteq> ch" using a by (auto simp: starved_def)
    then show ?thesis using a f Receive Some t by (auto simp: starved_def waiters_def)
  qed
next
  case (Begin n)
  assume a: "starved ch m"
  from goroutine_begin_cases [of n m] show ?thesis
  proof
    assume "goroutine_begin n m = m" then show ?thesis using a Begin by simp
  next
    assume "\<exists>r. n < length (goroutines m) \<and> goroutines m ! n = Spawned r
         \<and> goroutine_begin n m =
             (executeStep_register r m)\<lparr>goroutines := (goroutines m)[n := Executing r]\<rparr>"
    then obtain r where eq: "goroutine_begin n m =
             (executeStep_register r m)\<lparr>goroutines := (goroutines m)[n := Executing r]\<rparr>"
      by blast
    have "g = Executing r \<or> g \<in> set (goroutines m)"
      if "g \<in> set ((goroutines m)[n := Executing r])" for g
      using that set_update_subset_insert [of "goroutines m" n "Executing r"] by auto
    then show ?thesis using a unfolding Begin step.simps eq
      by (fastforce simp: starved_def waiters_def)
  qed
next
  case (Finish n env)
  assume a: "starved ch m"
  from goroutine_finish_cases [of n env m] show ?thesis
  proof
    assume "goroutine_finish n env m = m" then show ?thesis using a Finish by simp
  next
    let ?s = "\<lambda>r. complete_status (fst (executeStep r env (errs m)))"
    assume "\<exists>r. n < length (goroutines m) \<and> goroutines m ! n = Executing r
         \<and> goroutine_finish n env m =
             (executeStep_release r m)
               \<lparr>stepStatus := (stepStatus m)(ID r \<mapsto> ?s r),
                errs := snd (executeStep r env (errs m)),
                goroutines := (goroutines m)[n := Delivering r (?s r) (waiters m (ID r))]\<rparr>"
    then obtain r where eq: "goroutine_finish n env m =
             (executeStep_release r m)
               \<lparr>stepStatus := (stepStatus m)(ID r \<mapsto> ?s r),
                errs := snd (executeStep r env (errs m)),
                goroutines := (goroutines m)[n := Delivering r (?s r) (waiters m (ID r))]\<rparr>"
      by blast
    have "g = Delivering r (?s r) (waiters m (ID r)) \<or> g \<in> set (goroutines m)"
      if "g \<in> set ((goroutines m)[n := Delivering r (?s r) (waiters m (ID r))])" for g
      using that set_update_subset_insert [of "goroutines m" n] by auto
    then show ?thesis using a unfolding Finish step.simps eq
      by (fastforce simp: starved_def waiters_def)
  qed
next
  case (Send n)
  assume a: "starved ch m"
  from goroutine_send_cases [of n m] show ?thesis
  proof
    assume "goroutine_send n m = m" then show ?thesis using a Send by simp
  next
    assume "\<exists>r s c rest. n < length (goroutines m) \<and> goroutines m ! n = Delivering r s (c # rest)
         \<and> c < length (chans m) \<and> chans m ! c = []
         \<and> goroutine_send n m =
             m\<lparr>chans := (chans m)[c := [s]],
               goroutines := (goroutines m)[n := Delivering r s rest]\<rparr>"
    then obtain r s c rest where n: "n < length (goroutines m)"
      and g: "goroutines m ! n = Delivering r s (c # rest)"
      and eq: "goroutine_send n m =
             m\<lparr>chans := (chans m)[c := [s]],
               goroutines := (goroutines m)[n := Delivering r s rest]\<rparr>"
      by blast
    have "Delivering r s (c # rest) \<in> set (goroutines m)" using n g by (metis nth_mem)
    then have ne: "ch \<noteq> c" and nr: "ch \<notin> set rest" using a by (auto simp: starved_def)
    have "g = Delivering r s rest \<or> g \<in> set (goroutines m)"
      if "g \<in> set ((goroutines m)[n := Delivering r s rest])" for g
      using that set_update_subset_insert [of "goroutines m" n] by auto
    then show ?thesis using a ne nr unfolding Send step.simps eq
      by (fastforce simp: starved_def waiters_def)
  qed
next
  case (Stream ctx r t)
  assume "starved ch m" then show ?thesis using Stream
    by (simp add: starved_def waiters_def StreamOutput_fields)
next
  case (Watch ctx n)
  assume a: "starved ch m"
  show ?thesis
  proof (cases "StreamOutput_watcher ctx n m")
    case None
    then show ?thesis using a Watch by simp
  next
    case (Some m')
    show ?thesis using a StreamOutput_watcher_fields [OF Some] Watch Some
      by (simp add: starved_def waiters_def)
  qed
next
  case (ScopeEnd n)
  assume "starved ch m" then show ?thesis using ScopeEnd
    by (simp add: starved_def waiters_def)
qed

lemma starved_steps: "starved ch m \<Longrightarrow> starved ch (steps evs m)"
proof (induction evs arbitrary: m)
  case Nil
  then show ?case by simp
next
  case (Cons ev evs)
  show ?case using Cons.IH [OF starved_step [OF Cons.prems]] by simp
qed

text \<open>
  Claim C1 fails on the code. In lines 113 to 117 the test \<^verbatim>\<open>!ok\<close> is the wrong way
  round: the channel is appended when the identifier has no waiter list and the list is
  replaced when it has one. After two calls of \<^verbatim>\<open>PollStep\<close> on the running step
  \<open>s1\<close> the registry holds the second channel alone, and whatever events follow, the
  receive of the first caller finds its channel empty.
\<close>

theorem first_waiter_never_served:
  "stepWaitCh (steps two_polls_trace boot) ''s1'' = Some [1]
   \<and> PollStep_receive ctx 0 (steps (two_polls_trace @ evs) boot) = None"
proof -
  have "starved 0 (steps two_polls_trace boot)"
    by (simp add: two_polls_machine starved_def waiters_def)
  then have "starved 0 (steps (two_polls_trace @ evs) boot)"
    by (simp add: steps_append starved_steps)
  then have "PollStep_receive ctx 0 (steps (two_polls_trace @ evs) boot) = None"
    by (simp add: starved_def PollStep_receive_def)
  then show ?thesis by (simp add: two_polls_machine)
qed

text \<open>Claim C1 at the run where the step then completes: the goroutine has served its
  whole list, the second channel holds the status and the first holds nothing.\<close>

theorem first_waiter_never_served_witness:
  "chans (steps (two_polls_trace @ [Begin 0, Finish 0 clean_env, Send 0]) boot)
     = [[], [clean_status]]
   \<and> goroutines (steps (two_polls_trace @ [Begin 0, Finish 0 clean_env, Send 0]) boot)
     = [Delivering (primary_request ''s1'' 0) clean_status []]
   \<and> PollStep_receive Active 0
        (steps (two_polls_trace @ [Begin 0, Finish 0 clean_env, Send 0]) boot) = None"
  using first_waiter_never_served [of Active "[Begin 0, Finish 0 clean_env, Send 0]"]
  by (simp add: steps_append two_polls_machine executeStep_clean clean_status_def machine_defs)

lemma executeStep_close_failure:
  "executeStep (primary_request i 0) close_failure_env [] =
     (exit_result 1 (Some (MultiError 0)), [[Errorf ''upload failed'']])"
  by (simp add: executeStep_def close_failure_env_def run_def run_ctx_def exit_result_def
      timed_out_def Let_def)

lemma completed_machine:
  "steps completed_trace boot =
     \<lparr>stepStatus = [''s1'' \<mapsto> complete_status (exit_result 1 (Some (MultiError 0)))],
      stepLog = Map.empty, stepWaitCh = Map.empty, chans = [], dataChans = [],
      errs = [[Errorf ''upload failed'']],
      goroutines = [Delivering (primary_request ''s1'' 0)
                      (complete_status (exit_result 1 (Some (MultiError 0)))) []],
      watchers = []\<rparr>"
  by (simp add: completed_trace_def machine_defs boot_defs executeStep_close_failure)

text \<open>
  Claim C7 fails on the code in its second part. Step \<open>s1\<close> exits with code 1 and the
  close of the log writer fails, so the stored step error is an aggregate. Each call of
  \<^verbatim>\<open>PollStep\<close> converts the stored status, and the conversion appends ``exit status 1''
  to that same aggregate: the first response has two errors in its text, the second has
  three, while the entry of the status registry is the same before and after.
\<close>

theorem repeated_poll_changes_response:
  "poll_error_text (fst (PollStep Active (poll_request ''s1'') (steps completed_trace boot)))
     = Some (''2 errors occurred:'' @ NL @ TAB @ ''* upload failed'' @ NL @ TAB
             @ ''* exit status 1'' @ NL @ NL)
   \<and> poll_error_text (fst (PollStep Active (poll_request ''s1'')
        (snd (PollStep Active (poll_request ''s1'') (steps completed_trace boot)))))
     = Some (''3 errors occurred:'' @ NL @ TAB @ ''* upload failed'' @ NL @ TAB
             @ ''* exit status 1'' @ NL @ TAB @ ''* exit status 1'' @ NL @ NL)
   \<and> stepStatus (snd (PollStep Active (poll_request ''s1'') (steps completed_trace boot)))
     = stepStatus (steps completed_trace boot)"
proof -
  have n1: "show_nat (Suc 0) = ''1''" and n2: "show_nat (Suc (Suc 0)) = ''2''"
    and n3: "show_nat (Suc (Suc (Suc 0))) = ''3''"
    by (simp_all add: show_nat.simps digit_def)
  show ?thesis
    by (simp add: completed_machine PollStep_def poll_request_def Let_def complete_status_def
        exit_result_def convertStatus_def oom_or_exit_def Errors_def ListFormatFunc_def
        Sprintf_d_def poll_error_text_def n1 n2 n3)
qed

text \<open>Every log buffer has its legacy request: only the entry of a legacy run into
  \<^verbatim>\<open>executeStep\<close> adds an identifier to the log registry, and no step removes a
  goroutine or changes its request.\<close>

lemma PollStep_keeps:
  "goroutines (snd (PollStep ctx p m)) = goroutines m"
  "stepLog (snd (PollStep ctx p m)) = stepLog m"
  by (simp_all add: PollStep_def Let_def split: option.splits prod.splits)

lemma map_request_update:
  assumes "n < length gs" and "request g = request (gs ! n)"
  shows "map request (gs[n := g]) = map request gs"
proof -
  have "map request (gs[n := g]) = (map request gs)[n := request (gs ! n)]"
    using assms(2) by (simp add: map_update)
  also have "\<dots> = map request gs" using assms(1) by (simp add: list_update_same_conv)
  finally show ?thesis .
qed

lemma requests_step:
  "requests (step ev m) = requests m
   \<or> (\<exists>ctx r. ev = Start ctx r \<and> ID r \<noteq> [] \<and> requests (step ev m) = requests m @ [r])"
proof (cases ev)
  case (Start ctx r)
  then show ?thesis by (auto simp: requests_def StartStep_def)
next
  case (Poll ctx r)
  then show ?thesis by (simp add: requests_def PollStep_keeps)
next
  case (Receive ctx ch)
  then show ?thesis
    by (auto simp: requests_def split: option.splits dest!: PollStep_receive_Some)
next
  case (Begin n)
  then show ?thesis using goroutine_begin_cases [of n m]
    by (auto simp: requests_def map_request_update)
next
  case (Finish n env)
  then show ?thesis using goroutine_finish_cases [of n env m]
    by (auto simp: requests_def map_request_update)
next
  case (Send n)
  then show ?thesis using goroutine_send_cases [of n m]
    by (auto simp: requests_def map_request_update)
next
  case (Stream ctx r t)
  then show ?thesis by (simp add: requests_def StreamOutput_fields)
next
  case (Watch ctx n)
  then show ?thesis
    by (auto simp: requests_def split: option.splits dest: StreamOutput_watcher_fields)
next
  case (ScopeEnd n)
  then show ?thesis by (simp add: requests_def)
qed

lemma cancel_scope_None: "stepLog m i = None \<Longrightarrow> stepLog (cancel_scope j m) i = None"
  by (auto simp: cancel_scope_def split: option.splits)

lemma stepLog_step:
  assumes "stepLog m i = None" and "\<forall>r \<in> set (requests m). ID r = i \<longrightarrow> \<not> LogDrone r"
  shows "stepLog (step ev m) i = None"
proof (cases ev)
  case (Start ctx r)
  then show ?thesis using assms(1) by (simp add: StartStep_def)
next
  case (Poll ctx r)
  then show ?thesis using assms(1) by (simp add: PollStep_keeps)
next
  case (Receive ctx ch)
  then show ?thesis using assms(1)
    by (auto split: option.splits dest!: PollStep_receive_Some)
next
  case (Begin n)
  from goroutine_begin_cases [of n m] show ?thesis
  proof
    assume "goroutine_begin n m = m" then show ?thesis using assms(1) Begin by simp
  next
    assume "\<exists>r. n < length (goroutines m) \<and> goroutines m ! n = Spawned r
         \<and> goroutine_begin n m =
             (executeStep_register r m)\<lparr>goroutines := (goroutines m)[n := Executing r]\<rparr>"
    then obtain r where n: "n < length (goroutines m)" and g: "goroutines m ! n = Spawned r"
      and eq: "goroutine_begin n m =
             (executeStep_register r m)\<lparr>goroutines := (goroutines m)[n := Executing r]\<rparr>"
      by blast
    have "Spawned r \<in> set (goroutines m)" using n g by (metis nth_mem)
    then have "r \<in> set (requests m)" by (force simp: requests_def)
    then have "ID r = i \<longrightarrow> \<not> LogDrone r" using assms(2) by blast
    then show ?thesis using assms(1) unfolding Begin step.simps eq
      by (auto simp: executeStep_register_def)
  qed
next
  case (Finish n env)
  from goroutine_finish_cases [of n env m] show ?thesis
  proof
    assume "goroutine_finish n env m = m" then show ?thesis using assms(1) Finish by simp
  next
    assume "\<exists>r. n < length (goroutines m) \<and> goroutines m ! n = Executing r
         \<and> goroutine_finish n env m =
             (executeStep_release r m)
               \<lparr>stepStatus := (stepStatus m)
                  (ID r \<mapsto> complete_status (fst (executeStep r env (errs m)))),
                errs := snd (executeStep r env (errs m)),
                goroutines := (goroutines m)
                  [n := Delivering r (complete_status (fst (executeStep r env (errs m))))
                          (waiters m (ID r))]\<rparr>"
    then obtain r where eq: "goroutine_finish n env m =
             (executeStep_release r m)
               \<lparr>stepStatus := (stepStatus m)
                  (ID r \<mapsto> complete_status (fst (executeStep r env (errs m)))),
                errs := snd (executeStep r env (errs m)),
                goroutines := (goroutines m)
                  [n := Delivering r (complete_status (fst (executeStep r env (errs m))))
                          (waiters m (ID r))]\<rparr>"
      by blast
    show ?thesis using assms(1) unfolding Finish step.simps eq
      by (simp add: executeStep_release_def cancel_scope_None)
  qed
next
  case (Send n)
  then show ?thesis using assms(1) goroutine_send_cases [of n m] by auto
next
  case (Stream ctx r t)
  then show ?thesis using assms(1)
    by (auto simp: StreamOutput_def Let_def Subscribe_def split: option.splits)
next
  case (Watch ctx n)
  then show ?thesis using assms(1)
    by (auto simp: StreamOutput_watcher_def split: option.splits watcher.splits)
next
  case (ScopeEnd n)
  then show ?thesis using assms(1) by (simp add: scope_end_def Let_def cancel_scope_None)
qed

lemma log_owned_step:
  assumes "log_owned m"
  shows "log_owned (step ev m)"
proof -
  have sub: "set (requests m) \<subseteq> set (requests (step ev m))"
    using requests_step [of ev m] by auto
  have ids: "\<forall>r \<in> set (requests (step ev m)). ID r \<noteq> []"
    using requests_step [of ev m] assms by (auto simp: log_owned_def)
  have own: "\<exists>r \<in> set (requests (step ev m)). ID r = i \<and> LogDrone r"
    if new: "stepLog (step ev m) i \<noteq> None" for i
  proof (rule ccontr)
    assume no: "\<not> (\<exists>r \<in> set (requests (step ev m)). ID r = i \<and> LogDrone r)"
    then have none: "\<forall>r \<in> set (requests m). ID r = i \<longrightarrow> \<not> LogDrone r" using sub by blast
    then have "stepLog m i = None" using assms unfolding log_owned_def by blast
    then have "stepLog (step ev m) i = None" using none by (rule stepLog_step)
    then show False using new by simp
  qed
  show ?thesis unfolding log_owned_def using ids own by blast
qed

lemma log_owned_steps: "log_owned m \<Longrightarrow> log_owned (steps evs m)"
proof (induction evs arbitrary: m)
  case Nil
  then show ?case by simp
next
  case (Cons ev evs)
  show ?case using Cons.IH [OF log_owned_step [OF Cons.prems, of ev]] by simp
qed

lemma log_owned_reachable: "log_owned (steps evs boot)"
  by (rule log_owned_steps) (simp add: log_owned_def requests_def boot_defs)

lemma primary_goroutine_has_no_buffer:
  assumes "g \<in> set (goroutines (steps evs boot))" and "\<not> LogDrone (request g)"
  shows "ID (request g) \<noteq> [] \<and> stepLog (steps evs boot) (ID (request g)) = None"
proof -
  let ?m = "steps evs boot"
  have own: "log_owned ?m" by (rule log_owned_reachable)
  have r: "request g \<in> set (requests ?m)" using assms(1) by (simp add: requests_def)
  then have ne: "ID (request g) \<noteq> []" using own by (simp add: log_owned_def)
  have "stepLog ?m (ID (request g)) = None"
  proof (rule ccontr)
    assume "stepLog ?m (ID (request g)) \<noteq> None"
    then obtain g' where g': "g' \<in> set (goroutines ?m)"
      and same: "ID (request g') = ID (request g)" and legacy: "LogDrone (request g')"
      using own by (auto simp: log_owned_def requests_def)
    have "inj_on (\<lambda>g. ID (request g)) (set (goroutines ?m))"
      using inv_distinct_goroutines [OF inv_reachable, of evs] by (simp add: distinct_map)
    then have "g' = g" using g' assms(1) same unfolding inj_on_def by blast
    then show False using legacy assms(2) by simp
  qed
  then show ?thesis using ne by simp
qed

lemma drone_request_fields [simp]:
  "ID (drone_request i) = i" "LogDrone (drone_request i) = True"
  by (simp_all add: drone_request_def)

lemma legacy_started_machine:
  "steps legacy_start_trace boot =
     \<lparr>stepStatus = [''d1'' \<mapsto> running_status], stepLog = Map.empty, stepWaitCh = Map.empty,
      chans = [], dataChans = [], errs = [],
      goroutines = [Spawned (drone_request ''d1'')], watchers = []\<rparr>"
  by (simp add: legacy_start_trace_def machine_defs boot_defs)

lemma mixed_machine:
  "steps mixed_trace boot =
     \<lparr>stepStatus = [''d1'' \<mapsto> running_status, ''s1'' \<mapsto> running_status],
      stepLog = [''d1'' \<mapsto> NewStepLog], stepWaitCh = Map.empty, chans = [], dataChans = [],
      errs = [],
      goroutines = [Executing (drone_request ''d1''), Executing (primary_request ''s1'' 0)],
      watchers = []\<rparr>"
  by (simp add: mixed_trace_def machine_defs boot_defs)

text \<open>
  Claim C6, as the code has it. When the goroutine of a step with the drone flag enters
  \<^verbatim>\<open>executeStep\<close>, a new log buffer is stored under the identifier and a pass of
  \<^verbatim>\<open>StreamOutput\<close> finds it and subscribes. When the step has no drone flag, entering
  \<^verbatim>\<open>executeStep\<close> leaves the log registry as it is. In every machine reached from the
  initial one, whatever other steps it runs on either path, a goroutine without the drone
  flag has a non-empty identifier for which the log registry holds no buffer, and a pass
  of \<^verbatim>\<open>StreamOutput\<close> for that identifier at or after the five seconds returns ``Step has
  not started''.
\<close>

theorem log_buffer_only_on_legacy_path:
  "(n < length (goroutines m) \<and> goroutines m ! n = Spawned r \<and> LogDrone r \<and> ID r \<noteq> [] \<longrightarrow>
      stepLog (step (Begin n) m) (ID r) = Some NewStepLog
      \<and> fst (StreamOutput ctx (stream_request (ID r) 0) t (step (Begin n) m))
          = StreamReturned (Some []) (Some (length (dataChans m))) None)
   \<and> (n < length (goroutines m) \<and> goroutines m ! n = Spawned r \<and> \<not> LogDrone r \<longrightarrow>
      stepLog (step (Begin n) m) = stepLog m)
   \<and> (g \<in> set (goroutines (steps evs boot)) \<and> \<not> LogDrone (request g) \<longrightarrow>
      ID (request g) \<noteq> [] \<and> stepLog (steps evs boot) (ID (request g)) = None
      \<and> (timeoutDelay \<le> t' \<longrightarrow>
           StreamOutput ctx (stream_request (ID (request g)) off) t' (steps evs boot)
             = (StreamReturned None None not_started, steps evs boot)))"
proof -
  have d: "StreamOutput ctx (stream_request (ID (request g)) off) t' (steps evs boot)
        = (StreamReturned None None not_started, steps evs boot)"
    if "g \<in> set (goroutines (steps evs boot))" "\<not> LogDrone (request g)" "timeoutDelay \<le> t'"
    using primary_goroutine_has_no_buffer [OF that(1,2)] that(3)
    by (simp add: StreamOutput_def stream_request_def not_started_def)
  show ?thesis
    using primary_goroutine_has_no_buffer [of g evs] d
    by (auto simp: goroutine_begin_def executeStep_register_def StreamOutput_def
        stream_request_def Subscribe_def NewStepLog_def Let_def)
qed

text \<open>Claim C6, the amended statement at an executor that runs a legacy step \<open>d1\<close> and
  a primary step \<open>s1\<close> side by side.\<close>

theorem log_buffer_only_on_legacy_path_witness:
  "stepLog (step (Begin 0) (steps legacy_start_trace boot)) ''d1'' = Some NewStepLog
   \<and> stepLog (steps mixed_trace boot) ''d1'' = Some NewStepLog
   \<and> stepLog (steps mixed_trace boot) ''s1'' = None
   \<and> StreamOutput Active (stream_request ''s1'' 0) timeoutDelay (steps mixed_trace boot)
        = (StreamReturned None None not_started, steps mixed_trace boot)"
  using log_buffer_only_on_legacy_path [where n = 0
      and m = "steps legacy_start_trace boot" and r = "drone_request ''d1''"
      and ctx = Active and t = 0 and t' = timeoutDelay and off = 0
      and evs = mixed_trace and g = "Executing (primary_request ''s1'' 0)"]
  by (simp add: mixed_machine legacy_started_machine goroutine_begin_def
      executeStep_register_def)

text \<open>
  Claim C6 as stated fails on the primary path: step \<open>s1\<close> has been started and its
  goroutine is inside \<^verbatim>\<open>executeStep\<close>, yet no log buffer is registered for it and
  \<^verbatim>\<open>StreamOutput\<close> gives up with ``Step has not started''.
\<close>

theorem primary_run_has_no_log_buffer_counterexample:
  "goroutines (steps [Start Active (primary_request ''s1'' 0), Begin 0] boot)
     = [Executing (primary_request ''s1'' 0)]
   \<and> stepLog (steps [Start Active (primary_request ''s1'' 0), Begin 0] boot) ''s1'' = None
   \<and> fst (StreamOutput Active (stream_request ''s1'' 0) timeoutDelay
        (steps [Start Active (primary_request ''s1'' 0), Begin 0] boot))
        = StreamReturned None None not_started"
  by (simp add: machine_defs boot_defs StreamOutput_def stream_request_def not_started_def)

text \<open>
  Claim C5, as the code has it. \<^verbatim>\<open>PollStep\<close> never reads its context: with any
  context it does what it does with a live one, both in its locked section and at its
  receive, and the receive stays blocked as long as the channel is empty. It changes
  neither the status registry nor the goroutines. \<^verbatim>\<open>StreamOutput\<close> does react to the
  caller: a pass of its waiting loop with a canceled context returns the context error,
  and its watcher closes the live channel and unsubscribes it from the log buffer; the
  watcher's step touches the live channels, the log registry and the watchers only.
\<close>

theorem caller_cancellation:
  "PollStep ctx p m = PollStep Active p m
   \<and> PollStep_receive ctx ch m = PollStep_receive Active ch m
   \<and> (ch < length (chans m) \<and> chans m ! ch = [] \<longrightarrow> PollStep_receive ctx ch m = None)
   \<and> stepStatus (snd (PollStep ctx p m)) = stepStatus m
   \<and> goroutines (snd (PollStep ctx p m)) = goroutines m
   \<and> (ctx \<noteq> Active \<and> stream_ID q \<noteq> [] \<and> stepLog m (stream_ID q) = None \<and> t < timeoutDelay \<longrightarrow>
        StreamOutput ctx q t m = (StreamReturned None None (ctx_Err ctx), m))
   \<and> (ctx \<noteq> Active \<and> n < length (watchers m) \<and> watchers m ! n = Watching i c
        \<and> stepLog m i = Some sl \<longrightarrow>
        StreamOutput_watcher ctx n m =
          Some (m\<lparr>dataChans := (dataChans m)[c := True],
                  stepLog := (stepLog m)(i \<mapsto> Unsubscribe c sl),
                  watchers := (watchers m)[n := Stopped]\<rparr>))"
proof -
  have a: "PollStep ctx p m = PollStep Active p m" by (simp add: PollStep_def)
  have b: "PollStep_receive ctx ch m = PollStep_receive Active ch m"
    by (simp add: PollStep_receive_def)
  have c: "PollStep_receive ctx ch m = None" if "ch < length (chans m)" "chans m ! ch = []"
    using that by (simp add: PollStep_receive_def)
  have d: "stepStatus (snd (PollStep ctx p m)) = stepStatus m"
    by (simp add: PollStep_def Let_def split: option.splits prod.splits)
  have e: "goroutines (snd (PollStep ctx p m)) = goroutines m"
    by (simp add: PollStep_def Let_def split: option.splits prod.splits)
  have f: "StreamOutput ctx q t m = (StreamReturned None None (ctx_Err ctx), m)"
    if "ctx \<noteq> Active" "stream_ID q \<noteq> []" "stepLog m (stream_ID q) = None" "t < timeoutDelay"
    using that by (cases ctx) (simp_all add: StreamOutput_def)
  have g: "StreamOutput_watcher ctx n m =
          Some (m\<lparr>dataChans := (dataChans m)[c := True],
                  stepLog := (stepLog m)(i \<mapsto> Unsubscribe c sl),
                  watchers := (watchers m)[n := Stopped]\<rparr>)"
    if "ctx \<noteq> Active" "n < length (watchers m)" "watchers m ! n = Watching i c"
      "stepLog m i = Some sl"
    using that by (simp add: StreamOutput_watcher_def)
  show ?thesis using a b c d e f g by blast
qed

lemma watched_machine:
  "steps watched_trace boot =
     \<lparr>stepStatus = [''d1'' \<mapsto> running_status],
      stepLog = [''d1'' \<mapsto> \<lparr>log_data = [], log_subs = [0], log_done = False\<rparr>],
      stepWaitCh = Map.empty, chans = [], dataChans = [False], errs = [],
      goroutines = [Executing (drone_request ''d1'')], watchers = [Watching ''d1'' 0]\<rparr>"
  by (simp add: watched_trace_def drone_request_def stream_request_def machine_defs boot_defs
      StreamOutput_def Subscribe_def NewStepLog_def)

text \<open>Claim C5, the amended statement at a legacy step \<open>d1\<close> with one subscriber.\<close>

theorem caller_cancellation_witness:
  "PollStep_receive CtxCanceled 0
      (snd (PollStep CtxCanceled (poll_request ''d1'') (steps watched_trace boot))) = None
   \<and> StreamOutput_watcher CtxCanceled 0 (steps watched_trace boot) =
       Some ((steps watched_trace boot)\<lparr>dataChans := [True], stepLog := [''d1'' \<mapsto> NewStepLog],
               watchers := [Stopped]\<rparr>)
   \<and> StreamOutput CtxCanceled (stream_request ''s9'' 0) 0 (steps watched_trace boot)
       = (StreamReturned None None (Some (Plain Canceled)), steps watched_trace boot)"
  using caller_cancellation [where ctx = CtxCanceled and p = "poll_request ''d1''"
      and m = "steps watched_trace boot" and n = 0 and i = "''d1''" and c = 0
      and sl = "\<lparr>log_data = [], log_subs = [0], log_done = False\<rparr>"
      and q = "stream_request ''s9'' 0" and t = 0
      and ch = 0]
  by (simp add: watched_machine poll_request_def stream_request_def PollStep_def
      PollStep_receive_def Let_def running_status_def waiters_def Unsubscribe_def NewStepLog_def
      timeoutDelay_def)

text \<open>
  Claim C5 as stated fails for \<^verbatim>\<open>PollStep\<close>: called with a canceled context on the
  running step \<open>s1\<close>, it registers its channel and waits, and its receive does not
  return.
\<close>

theorem canceled_poll_keeps_waiting_counterexample:
  "stepStatus (steps [Start Active (primary_request ''s1'' 0)] boot) ''s1'' = Some running_status
   \<and> fst (PollStep CtxCanceled (poll_request ''s1'')
            (steps [Start Active (primary_request ''s1'' 0)] boot)) = Waiting 0
   \<and> PollStep_receive CtxCanceled 0
        (snd (PollStep CtxCanceled (poll_request ''s1'')
               (steps [Start Active (primary_request ''s1'' 0)] boot))) = None"
  by (simp add: poll_request_def machine_defs boot_defs)

text \<open>The entry of a completed step is final: no step of any interleaving writes it
  again. The responses to repeated polls differ all the same, through the store.\<close>

lemma complete_kept_step:
  assumes "inv m" and "stepStatus m i = Some s" and "Status s = Complete"
  shows "stepStatus (step ev m) i = Some s"
proof (cases ev)
  case (Start ctx r)
  then show ?thesis using assms(2) by (auto simp: StartStep_def)
next
  case (Poll ctx r)
  then show ?thesis using assms(2)
    by (simp add: PollStep_def Let_def split: option.splits prod.splits)
next
  case (Receive ctx ch)
  then show ?thesis using assms(2)
    by (auto split: option.splits dest!: PollStep_receive_Some)
next
  case (Begin n)
  then show ?thesis using assms(2) goroutine_begin_cases [of n m] by auto
next
  case (Finish n env)
  from goroutine_finish_cases [of n env m] show ?thesis
  proof
    assume "goroutine_finish n env m = m" then show ?thesis using assms(2) Finish by simp
  next
    let ?s = "\<lambda>r. complete_status (fst (executeStep r env (errs m)))"
    assume "\<exists>r. n < length (goroutines m) \<and> goroutines m ! n = Executing r
         \<and> goroutine_finish n env m =
             (executeStep_release r m)
               \<lparr>stepStatus := (stepStatus m)(ID r \<mapsto> ?s r),
                errs := snd (executeStep r env (errs m)),
                goroutines := (goroutines m)[n := Delivering r (?s r) (waiters m (ID r))]\<rparr>"
    then obtain r where n: "n < length (goroutines m)" and g: "goroutines m ! n = Executing r"
      and eq: "goroutine_finish n env m =
             (executeStep_release r m)
               \<lparr>stepStatus := (stepStatus m)(ID r \<mapsto> ?s r),
                errs := snd (executeStep r env (errs m)),
                goroutines := (goroutines m)[n := Delivering r (?s r) (waiters m (ID r))]\<rparr>"
      by blast
    have "goroutine_ok m (Executing r)"
      using inv_goroutine [OF assms(1), of "Executing r"] n g by (metis nth_mem)
    then have "ID r \<noteq> i" using assms(2,3) by (auto simp: goroutine_ok_def status_of_def)
    then show ?thesis using assms(2) unfolding Finish step.simps eq by simp
  qed
next
  case (Send n)
  then show ?thesis using assms(2) goroutine_send_cases [of n m] by auto
next
  case (Stream ctx r t)
  then show ?thesis using assms(2) by (simp add: StreamOutput_fields)
next
  case (Watch ctx n)
  then show ?thesis using assms(2)
    by (auto split: option.splits dest: StreamOutput_watcher_fields)
next
  case (ScopeEnd n)
  then show ?thesis using assms(2) by simp
qed

lemma complete_entry_is_final:
  assumes "inv m" and "stepStatus m i = Some s" and "Status s = Complete"
  shows "stepStatus (steps evs m) i = Some s"
  using assms
proof (induction evs arbitrary: m)
  case Nil
  then show ?case by simp
next
  case (Cons ev evs)
  show ?case
    using Cons.IH [OF inv_step [OF Cons.prems(1), of ev] complete_kept_step [OF Cons.prems, of ev]
        Cons.prems(3)]
    by simp
qed

text \<open>
  A detached legacy step: \<^verbatim>\<open>executeStepDrone\<close> returns at once with a state that has not
  exited, and the log buffer stays open, so a watcher whose caller is still there waits.
  When the detached run returns, its deferred \<^verbatim>\<open>cancel()\<close> ends the scope of the buffer
  and the watcher closes the live channel.
\<close>

lemma detached_machine:
  "steps detached_trace boot =
     \<lparr>stepStatus = [''d2'' \<mapsto> complete_status
         \<lparr>exited = Some not_exited, outputs = None, artifact = None, outputV2 = None,
          optimizationState = [], telemetry = None, err = None\<rparr>],
      stepLog = [''d2'' \<mapsto> \<lparr>log_data = [], log_subs = [0], log_done = False\<rparr>],
      stepWaitCh = Map.empty, chans = [], dataChans = [False], errs = [],
      goroutines = [Delivering (detached_request ''d2'')
         (complete_status
           \<lparr>exited = Some not_exited, outputs = None, artifact = None, outputV2 = None,
            optimizationState = [], telemetry = None, err = None\<rparr>) []],
      watchers = [Watching ''d2'' 0]\<rparr>"
  by (simp add: detached_trace_def detached_request_def stream_request_def machine_defs boot_defs
      StreamOutput_def Subscribe_def NewStepLog_def executeStep_def executeStepDrone_def)

lemma detached_scope_ends:
  "StreamOutput_watcher Active 0 (steps detached_trace boot) = None
   \<and> StreamOutput_watcher Active 0 (steps (detached_trace @ [ScopeEnd 0]) boot) =
       Some ((steps detached_trace boot)
               \<lparr>dataChans := [True],
                stepLog := [''d2'' \<mapsto> \<lparr>log_data = [], log_subs = [], log_done = True\<rparr>],
                watchers := [Stopped]\<rparr>)"
  by (simp add: steps_append detached_machine StreamOutput_watcher_def scope_end_def
      cancel_scope_def detached_request_def Unsubscribe_def Let_def)

end
